theory Spec2Isabelle
  imports Main "HOL-Library.Word" "HOL-Library.Signed_Division"
begin

unbundle bit_operations_syntax

section \<open>NTSC/CRT: integer-only NTSC signal encoding and decoding (crt.c)\<close>

text \<open>
  The C source computes in \<^verbatim>\<open>int\<close>. The model uses \<^typ>\<open>int\<close> and follows C's rules:
  \<^item> \<^verbatim>\<open>a / b\<close> truncates towards zero: \<open>a sdiv b\<close>; \<^verbatim>\<open>a % b\<close> is \<open>a smod b\<close>;
  \<^item> \<^verbatim>\<open>a >> k\<close> on a signed value is the arithmetic shift: \<open>a div 2 ^ k\<close> (rounds down);
  \<^item> \<^verbatim>\<open>a << k\<close> is \<open>a * 2 ^ k\<close>;
  \<^item> \<^verbatim>\<open>a & b\<close> is \<open>a AND b\<close> on two's complement integers.
  The model agrees with the C program wherever the C arithmetic does not overflow
  (signed overflow is undefined in C). The one value that overflows in every run, the
  noise generator's state, is a 32-bit word.
\<close>

subsection \<open>Fixed point math\<close>

definition T14_2PI :: int where "T14_2PI = 16384"
definition T14_MASK :: int where "T14_MASK = T14_2PI - 1"
definition T14_PI :: int where "T14_PI = T14_2PI sdiv 2"

definition sigpsin15 :: "int list" where
  "sigpsin15 = [0x0000,
     0x0c88, 0x18f8, 0x2528, 0x30f8, 0x3c50, 0x4718, 0x5130, 0x5a80,
     0x62f0, 0x6a68, 0x70e0, 0x7640, 0x7a78, 0x7d88, 0x7f60, 0x8000,
     0x7f60]"

definition sintabil8 :: "int \<Rightarrow> int" where
  "sintabil8 n =
     (let f = (n div 2 ^ 0) AND 0xff;
          i = (n div 2 ^ 8) AND 0xff;
          a = sigpsin15 ! nat i;
          b = sigpsin15 ! nat (i + 1)
      in a + ((b - a) * f) div 2 ^ 8)"

text \<open>\<open>sincos14 n\<close> returns the pair \<open>(s, c)\<close> that the C function stores through its pointers.\<close>

definition sincos14 :: "int \<Rightarrow> int \<times> int" where
  "sincos14 n0 =
     (let n = n0 AND T14_MASK;
          h = n AND ((T14_2PI div 2 ^ 1) - 1);
          (s, c) = (if h > (T14_2PI div 2 ^ 2) - 1
                    then (sintabil8 ((T14_2PI div 2 ^ 1) - h), - sintabil8 (h - (T14_2PI div 2 ^ 2)))
                    else (sintabil8 h, sintabil8 ((T14_2PI div 2 ^ 2) - h)))
      in if n > (T14_2PI div 2 ^ 1) - 1 then (- s, - c) else (s, c))"

definition EXP_P :: nat where "EXP_P = 11"
definition EXP_ONE :: int where "EXP_ONE = 2 ^ EXP_P"
definition EXP_MASK :: int where "EXP_MASK = EXP_ONE - 1"
definition EXP_PI :: int where "EXP_PI = 6434"

definition EXP_MUL :: "int \<Rightarrow> int \<Rightarrow> int" where
  "EXP_MUL x y = (x * y) div 2 ^ EXP_P"

definition e11 :: "int list" where
  "e11 = [EXP_ONE, 5567, 15133, 41135, 111817]"

text \<open>
  The power series loop of \<^verbatim>\<open>expx\<close>, from term \<open>i\<close> on; it leaves at the \<^verbatim>\<open>break\<close> or at
  \<open>i = 17\<close> and returns \<^verbatim>\<open>acc\<close>.
\<close>

function exp_series :: "int \<Rightarrow> int \<Rightarrow> int \<Rightarrow> int \<Rightarrow> int \<Rightarrow> int" where
  "exp_series n i nxt acc del =
     (if i < 17 then
        (let acc' = acc + nxt sdiv del;
             nxt' = EXP_MUL nxt n;
             del' = del * i
         in if del' > nxt' \<or> nxt' \<le> 0 \<or> del' \<le> 0 then acc'
            else exp_series n (i + 1) nxt' acc' del')
      else acc)"
  by pat_completeness auto
termination
  by (relation "measure (\<lambda>(n, i, nxt, acc, del). nat (17 - i))") auto

declare exp_series.simps [simp del]

subsection \<open>Three band equalizer\<close>

definition HISTLEN :: nat where "HISTLEN = 3"
definition HISTOLD :: nat where "HISTOLD = HISTLEN - 1"
definition HISTNEW :: nat where "HISTNEW = 0"
definition EQ_P :: nat where "EQ_P = 16"
definition EQ_R :: int where "EQ_R = 2 ^ (EQ_P - 1)"

record EQF =
  lf :: int
  hf :: int
  g :: "int list"
  fL :: "int list"
  fH :: "int list"
  h :: "int list"

definition init_eq :: "int \<Rightarrow> int \<Rightarrow> int \<Rightarrow> int \<Rightarrow> int \<Rightarrow> int \<Rightarrow> EQF" where
  "init_eq f_lo f_hi rate g_lo g_mid g_hi =
     (let sn_lo = fst (sincos14 ((T14_PI * f_lo) sdiv rate));
          sn_hi = fst (sincos14 ((T14_PI * f_hi) sdiv rate))
      in \<lparr> lf = (if EQ_P \<ge> 15 then 2 * (sn_lo * 2 ^ (EQ_P - 15)) else 2 * (sn_lo div 2 ^ (15 - EQ_P))),
           hf = (if EQ_P \<ge> 15 then 2 * (sn_hi * 2 ^ (EQ_P - 15)) else 2 * (sn_hi div 2 ^ (15 - EQ_P))),
           g = [g_lo, g_mid, g_hi],
           fL = replicate 4 0,
           fH = replicate 4 0,
           h = replicate HISTLEN 0 \<rparr>)"

definition reset_eq :: "EQF \<Rightarrow> EQF" where
  "reset_eq f = f\<lparr> fL := replicate 4 0, fH := replicate 4 0, h := replicate HISTLEN 0 \<rparr>"

text \<open>The two four-stage cascades of \<^verbatim>\<open>eqf\<close>: stage 0 is fed the sample, stage \<open>i\<close> the stage before it.\<close>

definition eqf_stage :: "nat \<Rightarrow> EQF \<Rightarrow> EQF" where
  "eqf_stage i f =
     (let f1 = f\<lparr> fL := (fL f)[i := fL f ! i + (lf f * (fL f ! (i - 1) - fL f ! i) + EQ_R) div 2 ^ EQ_P] \<rparr>
      in f1\<lparr> fH := (fH f1)[i := fH f1 ! i + (hf f1 * (fH f1 ! (i - 1) - fH f1 ! i) + EQ_R) div 2 ^ EQ_P] \<rparr>)"

definition eqf_cascade :: "EQF \<Rightarrow> int \<Rightarrow> EQF" where
  "eqf_cascade f s =
     (let f1 = f\<lparr> fL := (fL f)[0 := fL f ! 0 + (lf f * (s - fL f ! 0) + EQ_R) div 2 ^ EQ_P] \<rparr>;
          f2 = f1\<lparr> fH := (fH f1)[0 := fH f1 ! 0 + (hf f1 * (s - fH f1 ! 0) + EQ_R) div 2 ^ EQ_P] \<rparr>
      in fold eqf_stage [1..<4] f2)"

text \<open>The three bands \<^verbatim>\<open>r[0..2]\<close> before the gains are applied, read from the updated cascades.\<close>

definition eqf_bands :: "EQF \<Rightarrow> int list" where
  "eqf_bands f = [fL f ! 3, fH f ! 3 - fL f ! 3, h f ! HISTOLD - fH f ! 3]"

definition eqf_gain :: "EQF \<Rightarrow> int list \<Rightarrow> int list" where
  "eqf_gain f r = fold (\<lambda>i r. r[i := (r ! i * g f ! i) div 2 ^ EQ_P]) [0..<3] r"

definition eqf_hist :: "EQF \<Rightarrow> int \<Rightarrow> EQF" where
  "eqf_hist f s =
     (let hs = fold (\<lambda>i hs. hs[i := hs ! (i - 1)]) (rev [1..<Suc HISTOLD]) (h f)
      in f\<lparr> h := hs[HISTNEW := s] \<rparr>)"

text \<open>\<open>eqf f s\<close> returns the updated filter and the value the C function returns.\<close>

definition eqf :: "EQF \<Rightarrow> int \<Rightarrow> EQF \<times> int" where
  "eqf f s =
     (let f1 = eqf_cascade f s;
          r = eqf_gain f1 (eqf_bands f1);
          f2 = eqf_hist f1 s
      in (f2, r ! 0 + r ! 1 + r ! 2))"

text \<open>Feeding a sequence of samples to one filter, collecting the returned values.\<close>

fun eqf_run :: "EQF \<Rightarrow> int list \<Rightarrow> EQF \<times> int list" where
  "eqf_run f [] = (f, [])"
| "eqf_run f (s # ss) =
     (let (f1, y) = eqf f s; (f2, ys) = eqf_run f1 ss in (f2, y # ys))"

text \<open>The sum of the three bands of one \<^verbatim>\<open>eqf\<close> step on sample \<open>s\<close>, before the gains.\<close>

definition eqf_band_sum :: "EQF \<Rightarrow> int \<Rightarrow> int" where
  "eqf_band_sum f s = sum_list (eqf_bands (eqf_cascade f s))"

subsection \<open>Faults\<close>

text \<open>
  What C leaves undefined is a value of the model: an array access outside the array,
  a division by zero, a read of a local that was never written. Every function that can
  do one of these returns \<open>fault + 'a\<close>, with \<open>Inl\<close> the fault.
\<close>

datatype fault = OutOfBounds | DivByZero | Uninitialised

definition rd :: "'a list \<Rightarrow> int \<Rightarrow> fault + 'a" where
  "rd xs i = (if 0 \<le> i \<and> i < int (length xs) then Inr (xs ! nat i) else Inl OutOfBounds)"

definition wr :: "'a list \<Rightarrow> int \<Rightarrow> 'a \<Rightarrow> fault + 'a list" where
  "wr xs i x = (if 0 \<le> i \<and> i < int (length xs) then Inr (xs[nat i := x]) else Inl OutOfBounds)"

definition cdiv :: "int \<Rightarrow> int \<Rightarrow> fault + int" where
  "cdiv a b = (if b = 0 then Inl DivByZero else Inr (a sdiv b))"

text \<open>A \<^verbatim>\<open>for\<close> loop without \<^verbatim>\<open>break\<close>: the body runs on each index in turn and a fault ends it.\<close>

fun foldM :: "('a \<Rightarrow> 's \<Rightarrow> fault + 's) \<Rightarrow> 'a list \<Rightarrow> 's \<Rightarrow> fault + 's" where
  "foldM f [] s = Inr s"
| "foldM f (x # xs) s = (case f x s of Inl e \<Rightarrow> Inl e | Inr s' \<Rightarrow> foldM f xs s')"

text \<open>Fixed point \<open>e ^ x\<close>. \<^verbatim>\<open>EXP_DIV(EXP_ONE, res)\<close> divides by the result for a negative argument.\<close>

definition expx :: "int \<Rightarrow> fault + int" where
  "expx n0 =
     (if n0 = 0 then Inr EXP_ONE
      else
       (let neg = (n0 < 0);
            n = (if neg then - n0 else n0);
            idx = n div 2 ^ EXP_P;
            res = fold (\<lambda>i res. EXP_MUL res (e11 ! 4)) [0 ..< nat (idx sdiv 4)] EXP_ONE;
            idx' = idx AND 3;
            res1 = (if idx' > 0 then EXP_MUL res (e11 ! nat idx') else res);
            acc = exp_series (n AND EXP_MASK) 1 EXP_ONE 0 1;
            res2 = EXP_MUL res1 acc
        in if neg then cdiv (EXP_ONE * 2 ^ EXP_P) res2 else Inr res2))"

text \<open>
  The low-pass filter \<^verbatim>\<open>struct IIRLP { int c; int h; }\<close>; its fields are named \<open>iir_c\<close> and
  \<open>iir_h\<close> here, \<open>h\<close> being the equalizer's history.
\<close>

record IIRLP =
  iir_c :: int
  iir_h :: int

subsection \<open>Low pass filter\<close>

definition init_iir :: "int \<Rightarrow> int \<Rightarrow> fault + IIRLP" where
  "init_iir freq limit =
     (case cdiv (freq * 2 ^ 9) limit of Inl e \<Rightarrow> Inl e
      | Inr rate \<Rightarrow>
          (case cdiv (EXP_PI * 2 ^ 9) rate of Inl e \<Rightarrow> Inl e
           | Inr a \<Rightarrow>
               (case expx (- a) of Inl e \<Rightarrow> Inl e
                | Inr x \<Rightarrow> Inr \<lparr> iir_c = EXP_ONE - x, iir_h = 0 \<rparr>)))"

definition reset_iir :: "IIRLP \<Rightarrow> IIRLP" where
  "reset_iir f = f\<lparr> iir_h := 0 \<rparr>"

text \<open>\<open>iirf f s\<close> returns the updated filter and the value returned (\<^verbatim>\<open>HIPASS\<close> is 0).\<close>

definition iirf :: "IIRLP \<Rightarrow> int \<Rightarrow> IIRLP \<times> int" where
  "iirf f s =
     (let f' = f\<lparr> iir_h := iir_h f + EXP_MUL (s - iir_h f) (iir_c f) \<rparr>
      in (f', iir_h f'))"

subsection \<open>Line timing (crt.c) and the constants of crt.h\<close>

text \<open>
  The header \<^verbatim>\<open>crt.h\<close> is not among the sources. Its macros are the fields of the
  parameter \<open>K\<close>; every definition that uses one takes \<open>K\<close>.
\<close>

record crt_h =
  CRT_CB_FREQ :: int
  CRT_HRES :: int
  CRT_VRES :: int
  CRT_TOP :: int
  CRT_BOT :: int
  CRT_LINES :: int

text \<open>
  Modelled from the spec: the macro \<^verbatim>\<open>CRT_INPUT_SIZE\<close> of crt.h is missing; the spec gives
  the analog buffer's dimensions as the fixed line count times the fixed samples per line.
\<close>

definition CRT_INPUT_SIZE :: "crt_h \<Rightarrow> int" where
  "CRT_INPUT_SIZE K = CRT_HRES K * CRT_VRES K"

definition LINE_BEG :: int where "LINE_BEG = 0"
definition FP_ns :: int where "FP_ns = 1500"
definition SYNC_ns :: int where "SYNC_ns = 4700"
definition BW_ns :: int where "BW_ns = 600"
definition CB_ns :: int where "CB_ns = 2500"
definition BP_ns :: int where "BP_ns = 1600"
definition AV_ns :: int where "AV_ns = 52600"
definition HB_ns :: int where "HB_ns = FP_ns + SYNC_ns + BW_ns + CB_ns + BP_ns"
definition LINE_ns :: int where "LINE_ns = FP_ns + SYNC_ns + BW_ns + CB_ns + BP_ns + AV_ns"

definition ns2pos :: "crt_h \<Rightarrow> int \<Rightarrow> int" where
  "ns2pos K ns = (ns * CRT_HRES K) sdiv LINE_ns"

definition FP_BEG :: "crt_h \<Rightarrow> int" where "FP_BEG K = ns2pos K 0"
definition SYNC_BEG :: "crt_h \<Rightarrow> int" where "SYNC_BEG K = ns2pos K FP_ns"
definition BW_BEG :: "crt_h \<Rightarrow> int" where "BW_BEG K = ns2pos K (FP_ns + SYNC_ns)"
definition CB_BEG :: "crt_h \<Rightarrow> int" where "CB_BEG K = ns2pos K (FP_ns + SYNC_ns + BW_ns)"
definition BP_BEG :: "crt_h \<Rightarrow> int" where "BP_BEG K = ns2pos K (FP_ns + SYNC_ns + BW_ns + CB_ns)"
definition AV_BEG :: "crt_h \<Rightarrow> int" where "AV_BEG K = ns2pos K HB_ns"
definition AV_LEN :: "crt_h \<Rightarrow> int" where "AV_LEN K = ns2pos K AV_ns"

definition CB_CYCLES :: int where "CB_CYCLES = 10"

definition WHITE_LEVEL :: int where "WHITE_LEVEL = 100"
definition BURST_LEVEL :: int where "BURST_LEVEL = 20"
definition BLACK_LEVEL :: int where "BLACK_LEVEL = 7"
definition BLANK_LEVEL :: int where "BLANK_LEVEL = 0"
definition SYNC_LEVEL :: int where "SYNC_LEVEL = -40"

definition CC_PHASE :: "int \<Rightarrow> int" where
  "CC_PHASE ln = (if ln AND 1 \<noteq> 0 then -1 else 1)"

definition POSMOD :: "int \<Rightarrow> int \<Rightarrow> int" where
  "POSMOD x n = ((x smod n) + n) smod n"

text \<open>
  An instance of the header for the concrete examples: four samples per colour carrier
  cycle and 227.5 cycles per line give 910 samples per line; 262 lines per field, of which
  lines 21 to 260 carry active video.
\<close>

definition K_ntsc :: crt_h where
  "K_ntsc = \<lparr> CRT_CB_FREQ = 4, CRT_HRES = 910, CRT_VRES = 262, CRT_TOP = 21, CRT_BOT = 261,
              CRT_LINES = 240 \<rparr>"

subsection \<open>The CRT context and the file's static state\<close>

text \<open>
  A sample is a \<^verbatim>\<open>signed char\<close>: an 8-bit word read through \<open>sint\<close>. The buffer behind the
  pointer \<^verbatim>\<open>out\<close> is the list \<open>out\<close>; a pixel is a C \<^verbatim>\<open>int\<close>.
\<close>

type_synonym schar = "8 word"

record CRT =
  analog :: "schar list"
  inp :: "schar list"
  hsync :: int
  vsync :: int
  brightness :: int
  contrast :: int
  saturation :: int
  black_point :: int
  white_point :: int
  outw :: int
  outh :: int
  out :: "int list"

text \<open>
  The file-scope filters and the function-static noise state \<^verbatim>\<open>rn\<close> of \<^verbatim>\<open>crt_draw\<close> outlive
  every call; the model passes them in and out.
\<close>

record statics =
  eqY :: EQF
  eqI :: EQF
  eqQ :: EQF
  iirY :: IIRLP
  iirI :: IIRLP
  iirQ :: IIRLP
  rn :: "32 word"

text \<open>
  The channels of a packed \<^verbatim>\<open>0xXXRRGGBB\<close> pixel, as \<^verbatim>\<open>crt_2ntsc\<close> unpacks them:
  \<^verbatim>\<open>(p >> 16) & 0xff\<close>, \<^verbatim>\<open>(p >> 8) & 0xff\<close>, \<^verbatim>\<open>(p >> 0) & 0xff\<close>.
\<close>

definition chan_r :: "int \<Rightarrow> int" where "chan_r p = (p div 2 ^ 16) AND 0xff"
definition chan_g :: "int \<Rightarrow> int" where "chan_g p = (p div 2 ^ 8) AND 0xff"
definition chan_b :: "int \<Rightarrow> int" where "chan_b p = (p div 2 ^ 0) AND 0xff"

subsection \<open>Configuration: crt_resize, crt_reset, crt_init\<close>

definition L_FREQ :: int where "L_FREQ = 1431818"
definition Y_FREQ :: int where "Y_FREQ = 420000"
definition I_FREQ :: int where "I_FREQ = 150000"
definition Q_FREQ :: int where "Q_FREQ = 55000"

definition crt_resize :: "CRT \<Rightarrow> int \<Rightarrow> int \<Rightarrow> int list \<Rightarrow> CRT" where
  "crt_resize v wd ht ob = v\<lparr> outw := wd, outh := ht, out := ob \<rparr>"

definition crt_reset :: "CRT \<Rightarrow> CRT" where
  "crt_reset v = v\<lparr> saturation := 18, brightness := 0, contrast := 179, black_point := 0,
                    white_point := 100, hsync := 0, vsync := 0 \<rparr>"

definition kHz2L :: "crt_h \<Rightarrow> int \<Rightarrow> int" where
  "kHz2L K kHz = (CRT_HRES K * (kHz * 100)) sdiv L_FREQ"

text \<open>
  \<^verbatim>\<open>crt_init\<close> clears the context (both sample buffers have \<^verbatim>\<open>CRT_INPUT_SIZE\<close> entries),
  binds the output buffer and configures the six filters; it leaves \<^verbatim>\<open>rn\<close> alone.
\<close>

definition crt_init :: "crt_h \<Rightarrow> statics \<Rightarrow> int \<Rightarrow> int \<Rightarrow> int list \<Rightarrow> fault + (statics \<times> CRT)" where
  "crt_init K G wd ht ob =
     (let v0 = \<lparr> analog = replicate (nat (CRT_INPUT_SIZE K)) 0,
                 inp = replicate (nat (CRT_INPUT_SIZE K)) 0,
                 hsync = 0, vsync = 0, brightness = 0, contrast = 0, saturation = 0,
                 black_point = 0, white_point = 0, outw = 0, outh = 0, out = [] \<rparr>;
          v = crt_reset (crt_resize v0 wd ht ob)
      in case init_iir L_FREQ Y_FREQ of Inl e \<Rightarrow> Inl e
         | Inr fy \<Rightarrow>
        (case init_iir L_FREQ I_FREQ of Inl e \<Rightarrow> Inl e
         | Inr fi \<Rightarrow>
        (case init_iir L_FREQ Q_FREQ of Inl e \<Rightarrow> Inl e
         | Inr fq \<Rightarrow>
            Inr (G\<lparr> eqY := init_eq (kHz2L K 1500) (kHz2L K 3000) (CRT_HRES K) 65536 8192 9175,
                    eqI := init_eq (kHz2L K 80) (kHz2L K 1150) (CRT_HRES K) 65536 65536 1311,
                    eqQ := init_eq (kHz2L K 80) (kHz2L K 1000) (CRT_HRES K) 65536 65536 0,
                    iirY := fy, iirI := fi, iirQ := fq \<rparr>, v))))"

subsection \<open>Encoding: crt_2ntsc\<close>

text \<open>
  \<^verbatim>\<open>struct NTSC_SETTINGS\<close> is declared in crt.h; \<^verbatim>\<open>crt_2ntsc\<close> uses its members \<^verbatim>\<open>rgb\<close>, \<^verbatim>\<open>w\<close>,
  \<^verbatim>\<open>h\<close>, \<^verbatim>\<open>as_color\<close> and \<^verbatim>\<open>field\<close>, named with the prefix \<open>s_\<close> here. The source image behind
  \<^verbatim>\<open>rgb\<close> is the list \<open>s_rgb\<close>.
\<close>

record NTSC_SETTINGS =
  s_rgb :: "int list"
  s_w :: int
  s_h :: int
  s_as_color :: int
  s_field :: int

definition cc :: "int list" where "cc = [0, 1, 0, -1]"

text \<open>
  \<^verbatim>\<open>while (t < limit) line[t++] = level\<close>, with \<^verbatim>\<open>line = &v->analog[n * CRT_HRES]\<close> (\<open>base\<close>).
  It returns \<^verbatim>\<open>t\<close> and the buffer.
\<close>

function fill :: "int \<Rightarrow> int \<Rightarrow> int \<Rightarrow> int \<Rightarrow> schar list \<Rightarrow> fault + (int \<times> schar list)" where
  "fill base limit level t an =
     (if t < limit then
        (case wr an (base + t) (word_of_int level) of Inl e \<Rightarrow> Inl e
         | Inr an' \<Rightarrow> fill base limit level (t + 1) an')
      else Inr (t, an))"
  by pat_completeness auto
termination
  by (relation "measure (\<lambda>(base, limit, level, t, an). nat (limit - t))") auto

declare fill.simps [simp del]

text \<open>Several such loops one after the other, each starting where the one before stopped.\<close>

definition fills :: "int \<Rightarrow> (int \<times> int) list \<Rightarrow> int \<times> schar list \<Rightarrow> fault + (int \<times> schar list)" where
  "fills base segs st = foldM (\<lambda>seg st. fill base (fst seg) (snd seg) (fst st) (snd st)) segs st"

definition burst_out :: "crt_h \<Rightarrow> int \<Rightarrow> schar list \<Rightarrow> fault + schar list" where
  "burst_out K base an =
     foldM (\<lambda>t an. wr an (base + t) (word_of_int (BLANK_LEVEL + (cc ! nat ((t + 0) AND 3)) * BURST_LEVEL)))
       [CB_BEG K .. CB_BEG K + CB_CYCLES * CRT_CB_FREQ K - 1] an"

text \<open>The timing waveform of line \<open>n\<close> (the body of the first loop of \<^verbatim>\<open>crt_2ntsc\<close>).\<close>

definition sync_line :: "crt_h \<Rightarrow> NTSC_SETTINGS \<Rightarrow> int \<Rightarrow> schar list \<Rightarrow> fault + schar list" where
  "sync_line K s n an =
     (let base = n * CRT_HRES K
      in if n \<le> 3 \<or> (n \<ge> 7 \<and> n \<le> 9) then
           (case fills base [((4 * CRT_HRES K) sdiv 100, SYNC_LEVEL),
                             ((50 * CRT_HRES K) sdiv 100, BLANK_LEVEL),
                             ((54 * CRT_HRES K) sdiv 100, SYNC_LEVEL),
                             ((100 * CRT_HRES K) sdiv 100, BLANK_LEVEL)] (LINE_BEG, an) of
              Inl e \<Rightarrow> Inl e | Inr r \<Rightarrow> Inr (snd r))
         else if n \<ge> 4 \<and> n \<le> 6 then
           (let even = [46, 50, 96, 100];
                odd = [4, 50, 96, 100];
                offs = (if s_field s = 1 then odd else even)
            in case fills base [((offs ! 0 * CRT_HRES K) sdiv 100, SYNC_LEVEL),
                                ((offs ! 1 * CRT_HRES K) sdiv 100, BLANK_LEVEL),
                                ((offs ! 2 * CRT_HRES K) sdiv 100, SYNC_LEVEL),
                                ((offs ! 3 * CRT_HRES K) sdiv 100, BLANK_LEVEL)] (LINE_BEG, an) of
                 Inl e \<Rightarrow> Inl e | Inr r \<Rightarrow> Inr (snd r))
         else
           (case fills base ([(SYNC_BEG K, BLANK_LEVEL), (BW_BEG K, SYNC_LEVEL), (AV_BEG K, BLANK_LEVEL)]
                             @ (if n < CRT_TOP K then [(CRT_HRES K, BLANK_LEVEL)] else []))
                   (LINE_BEG, an) of
              Inl e \<Rightarrow> Inl e
            | Inr r \<Rightarrow> if s_as_color s \<noteq> 0 then burst_out K base (snd r) else Inr (snd r)))"

text \<open>
  The placement of the picture: \<^verbatim>\<open>destw\<close>, \<^verbatim>\<open>desth\<close>, and the offsets \<^verbatim>\<open>xo\<close> (aligned down to a
  multiple of four) and \<^verbatim>\<open>yo\<close>.
\<close>

definition destw :: "crt_h \<Rightarrow> int" where "destw K = (AV_LEN K * 55500) div 2 ^ 16"
definition desth :: "crt_h \<Rightarrow> int" where "desth K = (CRT_LINES K * 63500) div 2 ^ 16"
definition xo :: "crt_h \<Rightarrow> int" where
  "xo K = (AV_BEG K + 4 + (AV_LEN K - destw K) sdiv 2) AND NOT 3"
definition yo :: "crt_h \<Rightarrow> int" where
  "yo K = CRT_TOP K + 4 + (CRT_LINES K - desth K) sdiv 2"

text \<open>RGB to YIQ of two source pixels blended.\<close>

definition rgb_yiq :: "int \<Rightarrow> int \<Rightarrow> int \<times> int \<times> int" where
  "rgb_yiq pA pB =
     (let rA = chan_r pA; gA = chan_g pA; bA = chan_b pA;
          rB = chan_r pB; gB = chan_g pB; bB = chan_b pB
      in ((19595 * rA + 38470 * gA + 7471 * bA + 19595 * rB + 38470 * gB + 7471 * bB) div 2 ^ 15,
          (39059 * rA - 18022 * gA - 21103 * bA + 39059 * rB - 18022 * gB - 21103 * bB) div 2 ^ 15,
          (13894 * rA - 34275 * gA + 20382 * bA + 13894 * rB - 34275 * gB + 20382 * bB) div 2 ^ 15))"

text \<open>
  One sample of the picture: column \<open>x\<close> of destination row \<open>y\<close>, whose two source rows start
  at \<open>syA\<close> and \<open>syB\<close>. The state is the statics (for the three low pass filters) and the
  analog buffer. The divisor \<^verbatim>\<open>destw\<close> is positive inside the loop over \<open>x\<close>.
\<close>

definition encode_sample ::
  "crt_h \<Rightarrow> CRT \<Rightarrow> NTSC_SETTINGS \<Rightarrow> int \<Rightarrow> int \<Rightarrow> int \<Rightarrow> int \<Rightarrow> statics \<times> schar list
     \<Rightarrow> fault + (statics \<times> schar list)" where
  "encode_sample K v s y syA syB x st =
     (let sx = (x * s_w s) sdiv destw K
      in case rd (s_rgb s) (sx + syA) of Inl e \<Rightarrow> Inl e
         | Inr pA \<Rightarrow>
        (case rd (s_rgb s) (sx + syB) of Inl e \<Rightarrow> Inl e
         | Inr pB \<Rightarrow>
        (case rgb_yiq pA pB of (fy, fi, fq) \<Rightarrow>
           (let G = fst st;
                ph = CC_PHASE (y + yo K);
                ire0 = BLACK_LEVEL + black_point v;
                ry = iirf (iirY G) fy;
                ri = iirf (iirI G) fi;
                rq = iirf (iirQ G) fq;
                fy' = snd ry;
                fi' = snd ri * ph * cc ! nat ((x + 0) AND 3);
                fq' = snd rq * ph * cc ! nat ((x + 3) AND 3);
                ire1 = ire0 + ((fy' + fi' + fq') * ((WHITE_LEVEL * white_point v) sdiv 100)) div 2 ^ 10;
                ire2 = (if ire1 < 0 then 0 else ire1);
                ire = (if ire2 > 110 then 110 else ire2)
            in case wr (snd st) ((x + xo K) + (y + yo K) * CRT_HRES K) (word_of_int ire) of
                 Inl e \<Rightarrow> Inl e
               | Inr an \<Rightarrow> Inr (G\<lparr> iirY := fst ry, iirI := fst ri, iirQ := fst rq \<rparr>, an)))))"

text \<open>One destination row \<open>y\<close>; the divisor \<^verbatim>\<open>desth\<close> is positive inside the loop over \<open>y\<close>.\<close>

definition encode_row ::
  "crt_h \<Rightarrow> CRT \<Rightarrow> NTSC_SETTINGS \<Rightarrow> int \<Rightarrow> statics \<times> schar list \<Rightarrow> fault + (statics \<times> schar list)" where
  "encode_row K v s y st =
     (let field_offset = ((s_field s * s_h s + desth K) sdiv desth K) sdiv 2;
          syA0 = (y * s_h s) sdiv desth K + field_offset;
          syB0 = (y * s_h s + desth K sdiv 2) sdiv desth K + field_offset;
          syA = (if syA0 \<ge> s_h s then s_h s else syA0) * s_w s;
          syB = (if syB0 \<ge> s_h s then s_h s else syB0) * s_w s;
          G = fst st;
          G' = G\<lparr> iirY := reset_iir (iirY G), iirI := reset_iir (iirI G), iirQ := reset_iir (iirQ G) \<rparr>
      in foldM (encode_sample K v s y syA syB) [0 .. destw K - 1] (G', snd st))"

definition crt_2ntsc ::
  "crt_h \<Rightarrow> statics \<Rightarrow> CRT \<Rightarrow> NTSC_SETTINGS \<Rightarrow> fault + (statics \<times> CRT \<times> NTSC_SETTINGS)" where
  "crt_2ntsc K G v s0 =
     (let s = s0\<lparr> s_field := s_field s0 AND 1 \<rparr>
      in case foldM (sync_line K s) [0 .. CRT_VRES K - 1] (analog v) of Inl e \<Rightarrow> Inl e
         | Inr an \<Rightarrow>
             (case foldM (encode_row K v s) [0 .. desth K - 1] (G, an) of Inl e \<Rightarrow> Inl e
              | Inr (G', an') \<Rightarrow> Inr (G', v\<lparr> analog := an' \<rparr>, s)))"

subsection \<open>Decoding: noise (crt_draw)\<close>

definition HSYNC_WINDOW :: int where "HSYNC_WINDOW = 8"
definition VSYNC_WINDOW :: int where "VSYNC_WINDOW = 8"

text \<open>
  One step of the generator, \<^verbatim>\<open>rn = 214019 * rn + 140327895\<close>, wrapping at 32 bits, and the
  byte \<^verbatim>\<open>(rn >> 16) & 0xff\<close> taken from it.
\<close>

definition rn_next :: "32 word \<Rightarrow> 32 word" where
  "rn_next r = 214019 * r + 140327895"

definition rn_byte :: "32 word \<Rightarrow> int" where
  "rn_byte r = uint (drop_bit 16 r AND 0xff)"

text \<open>Signal plus noise for one sample, clamped as the two \<^verbatim>\<open>if\<close>s do.\<close>

definition noisy_sample :: "32 word \<Rightarrow> int \<Rightarrow> schar \<Rightarrow> int" where
  "noisy_sample r noise a =
     (let s = sint a + ((rn_byte r - 0x7f) * noise) div 2 ^ 8;
          s1 = (if s > 127 then 127 else s);
          s2 = (if s1 < -127 then -127 else s1)
      in s2)"

definition noise_step :: "int \<Rightarrow> schar list \<Rightarrow> int \<Rightarrow> 32 word \<times> schar list \<Rightarrow> fault + (32 word \<times> schar list)" where
  "noise_step noise an i st =
     (let r = rn_next (fst st)
      in case rd an i of Inl e \<Rightarrow> Inl e
         | Inr a \<Rightarrow>
             (case wr (snd st) i (word_of_int (noisy_sample r noise a)) of Inl e \<Rightarrow> Inl e
              | Inr inp' \<Rightarrow> Inr (r, inp')))"

definition add_noise :: "crt_h \<Rightarrow> int \<Rightarrow> schar list \<Rightarrow> 32 word \<times> schar list \<Rightarrow> fault + (32 word \<times> schar list)" where
  "add_noise K noise an st = foldM (noise_step noise an) [0 .. CRT_INPUT_SIZE K - 1] st"

subsection \<open>Decoding: vertical sync\<close>

text \<open>
  The inner loop over the samples of one line, from index \<open>j\<close> with running sum \<open>s\<close>. It
  returns whether the sum reached the threshold, and the index \<open>j\<close> it stopped at (the
  crossing sample, or \<^verbatim>\<open>CRT_HRES\<close> when the line ran out).
\<close>

function vsync_line :: "crt_h \<Rightarrow> schar list \<Rightarrow> int \<Rightarrow> int \<Rightarrow> int \<Rightarrow> fault + (bool \<times> int)" where
  "vsync_line K sig line j s =
     (if j < CRT_HRES K then
        (case rd sig (line * CRT_HRES K + j) of Inl e \<Rightarrow> Inl e
         | Inr x \<Rightarrow>
             (let s' = s + sint x
              in if s' \<le> 100 * SYNC_LEVEL then Inr (True, j)
                 else vsync_line K sig line (j + 1) s'))
      else Inr (False, j))"
  by pat_completeness auto
termination
  by (relation "measure (\<lambda>(K, sig, line, j, s). nat (CRT_HRES K - j))") auto

text \<open>
  The outer loop over the candidate lines \<open>i\<close>; \<open>lj\<close> holds \<^verbatim>\<open>line\<close> and \<^verbatim>\<open>j\<close> as the previous
  iteration left them. The \<^verbatim>\<open>goto\<close> is the return of the pair at the crossing.
\<close>

function vsync_scan :: "crt_h \<Rightarrow> schar list \<Rightarrow> int \<Rightarrow> int \<Rightarrow> int \<times> int \<Rightarrow> fault + (int \<times> int)" where
  "vsync_scan K sig vs i lj =
     (if i < VSYNC_WINDOW then
        (let line = POSMOD (vs + i) (CRT_VRES K)
         in case vsync_line K sig line 0 0 of Inl e \<Rightarrow> Inl e
            | Inr (found, j) \<Rightarrow>
                if found then Inr (line, j) else vsync_scan K sig vs (i + 1) (line, j))
      else Inr lj)"
  by pat_completeness auto
termination
  by (relation "measure (\<lambda>(K, sig, vs, i, lj). nat (VSYNC_WINDOW - i))") auto

text \<open>
  \<^verbatim>\<open>line\<close> and \<^verbatim>\<open>j\<close> are not initialised before the loop; the window is never empty, so the
  starting pair is never returned.
\<close>

definition find_vsync :: "crt_h \<Rightarrow> schar list \<Rightarrow> int \<Rightarrow> fault + (int \<times> int)" where
  "find_vsync K sig vs = vsync_scan K sig vs (- VSYNC_WINDOW) (0, 0)"

definition field_of :: "crt_h \<Rightarrow> int \<Rightarrow> int" where
  "field_of K j = (if j > CRT_HRES K sdiv 2 then 1 else 0)"

subsection \<open>Decoding: one scan line\<close>

text \<open>
  Horizontal sync: the running sum over the window around \<^verbatim>\<open>SYNC_BEG\<close>, read from
  \<^verbatim>\<open>sig = v->inp + ln + v->hsync\<close> (\<open>base\<close>). The result is \<^verbatim>\<open>i\<close> after the loop.
\<close>

function hsync_scan :: "crt_h \<Rightarrow> schar list \<Rightarrow> int \<Rightarrow> int \<Rightarrow> int \<Rightarrow> fault + int" where
  "hsync_scan K sig base i s =
     (if i < HSYNC_WINDOW then
        (case rd sig (base + (SYNC_BEG K + i)) of Inl e \<Rightarrow> Inl e
         | Inr x \<Rightarrow>
             (let s' = s + sint x
              in if s' \<le> 4 * SYNC_LEVEL then Inr i
                 else hsync_scan K sig base (i + 1) s'))
      else Inr i)"
  by pat_completeness auto
termination
  by (relation "measure (\<lambda>(K, sig, base, i, s). nat (HSYNC_WINDOW - i))") auto

text \<open>
  The colour burst: \<^verbatim>\<open>p = ccref[i & 3] * 127 / 128; n = sig[i]; ccref[i & 3] = p + n\<close>, with
  \<^verbatim>\<open>sig = v->inp + ln + (v->hsync & ~3)\<close> (\<open>base\<close>).
\<close>

definition ccref_update :: "int \<Rightarrow> int \<Rightarrow> int" where
  "ccref_update old n = (old * 127) sdiv 128 + n"

definition burst_step :: "schar list \<Rightarrow> int \<Rightarrow> int \<Rightarrow> int list \<Rightarrow> fault + int list" where
  "burst_step sig base i ccref =
     (case rd sig (base + i) of Inl e \<Rightarrow> Inl e
      | Inr n \<Rightarrow> Inr (ccref[nat (i AND 3) := ccref_update (ccref ! nat (i AND 3)) (sint n)]))"

definition burst :: "crt_h \<Rightarrow> schar list \<Rightarrow> int \<Rightarrow> int list \<Rightarrow> fault + int list" where
  "burst K sig base ccref =
     foldM (burst_step sig base) [CB_BEG K .. CB_BEG K + CB_CYCLES * CRT_CB_FREQ K - 1] ccref"

definition wave_of :: "int list \<Rightarrow> int \<Rightarrow> int \<Rightarrow> int list" where
  "wave_of ccref phasealign sat =
     (let dci = ccref ! nat ((phasealign + 1) AND 3) - ccref ! nat ((phasealign + 3) AND 3);
          dcq = ccref ! nat ((phasealign + 2) AND 3) - ccref ! nat ((phasealign + 0) AND 3)
      in [- dcq * sat, dci * sat, dcq * sat, - dci * sat])"

text \<open>The sum of the active video samples, \<^verbatim>\<open>sig = v->inp + pos\<close>.\<close>

definition line_sum :: "crt_h \<Rightarrow> schar list \<Rightarrow> int \<Rightarrow> fault + int" where
  "line_sum K sig pos =
     foldM (\<lambda>i s. case rd sig (pos + i) of Inl e \<Rightarrow> Inl e | Inr x \<Rightarrow> Inr (s + sint x))
       [0 .. AV_LEN K - 1] 0"

definition reset_eqs :: "statics \<Rightarrow> statics" where
  "reset_eqs G = G\<lparr> eqY := reset_eq (eqY G), eqI := reset_eq (eqI G), eqQ := reset_eq (eqQ G) \<rparr>"

text \<open>
  The local array \<^verbatim>\<open>out[AV_LEN + 1]\<close> of decoded \<^verbatim>\<open>{y, i, q}\<close> triples is not initialised:
  an entry is \<open>None\<close> until the demodulation loop writes it.
\<close>

type_synonym yiq = "int \<times> int \<times> int"

definition demod_step ::
  "int \<Rightarrow> int list \<Rightarrow> schar list \<Rightarrow> int \<Rightarrow> int \<Rightarrow> statics \<times> yiq option list
     \<Rightarrow> fault + (statics \<times> yiq option list)" where
  "demod_step bright wave sig pos i st =
     (case rd sig (pos + i) of Inl e \<Rightarrow> Inl e
      | Inr x \<Rightarrow>
          (let G = fst st;
               ry = eqf (eqY G) (sint x + bright);
               ri = eqf (eqI G) ((sint x * wave ! nat ((i + 0) AND 3)) div 2 ^ 9);
               rq = eqf (eqQ G) ((sint x * wave ! nat ((i + 3) AND 3)) div 2 ^ 9)
           in case wr (snd st) i (Some (snd ry * 2 ^ 4, snd ri div 2 ^ 3, snd rq div 2 ^ 3)) of
                Inl e \<Rightarrow> Inl e
              | Inr ys \<Rightarrow> Inr (G\<lparr> eqY := fst ry, eqI := fst ri, eqQ := fst rq \<rparr>, ys)))"

text \<open>A read of the local array: outside it, or of an entry never written, is a fault.\<close>

definition rd_yiq :: "yiq option list \<Rightarrow> int \<Rightarrow> fault + yiq" where
  "rd_yiq ys k =
     (case rd ys k of Inl e \<Rightarrow> Inl e
      | Inr None \<Rightarrow> Inl Uninitialised
      | Inr (Some t) \<Rightarrow> Inr t)"

text \<open>YIQ to RGB for one channel: matrix row, contrast, clamp to \<open>[0, 255]\<close>.\<close>

definition channel :: "int \<Rightarrow> int \<Rightarrow> int" where
  "channel m con =
     (let r = ((m div 2 ^ 12) * con) div 2 ^ 8;
          r1 = (if r < 0 then 0 else r)
      in if r1 > 255 then 255 else r1)"

definition yiq_rgb :: "int \<Rightarrow> int \<Rightarrow> int \<Rightarrow> int \<Rightarrow> int \<times> int \<times> int" where
  "yiq_rgb y i q con =
     (channel (y + 3879 * i + 2556 * q) con,
      channel (y - 1126 * i - 2605 * q) con,
      channel (y - 4530 * i + 7021 * q) con)"

text \<open>\<^verbatim>\<open>aa = (r << 16 | g << 8 | b)\<close> and the blend with the pixel \<^verbatim>\<open>bb\<close> already there.\<close>

definition pack_rgb :: "int \<times> int \<times> int \<Rightarrow> int" where
  "pack_rgb c = (case c of (cr, cg, cb) \<Rightarrow> (cr * 2 ^ 16) OR (cg * 2 ^ 8) OR cb)"

definition blend :: "int \<Rightarrow> int \<Rightarrow> int" where
  "blend aa bb = ((aa AND 0xfefeff) div 2 ^ 1) + ((bb AND 0xfefeff) div 2 ^ 1)"

text \<open>The pixel computed at fixed-point position \<open>pos\<close> (an \<^verbatim>\<open>unsigned\<close>) from two decoded samples.\<close>

definition interp :: "yiq \<Rightarrow> yiq \<Rightarrow> int \<Rightarrow> yiq" where
  "interp a b pos =
     (case a of (ya, ia, qa) \<Rightarrow> case b of (yb, ib, qb) \<Rightarrow>
        (let R = pos AND 0xfff; L = 0xfff - R
         in ((ya * L) div 2 ^ 2 + (yb * R) div 2 ^ 2,
             (ia * L) div 2 ^ 14 + (ib * R) div 2 ^ 14,
             (qa * L) div 2 ^ 14 + (qb * R) div 2 ^ 14)))"

definition decoded_rgb :: "yiq \<Rightarrow> yiq \<Rightarrow> int \<Rightarrow> int \<Rightarrow> int \<times> int \<times> int" where
  "decoded_rgb a b pos con = (case interp a b pos of (y, i, q) \<Rightarrow> yiq_rgb y i q con)"

definition new_pixel :: "yiq \<Rightarrow> yiq \<Rightarrow> int \<Rightarrow> int \<Rightarrow> int \<Rightarrow> int" where
  "new_pixel a b pos con bb = blend (pack_rgb (decoded_rgb a b pos con)) bb"

definition put_pixel :: "yiq option list \<Rightarrow> int \<Rightarrow> int \<Rightarrow> int \<Rightarrow> int list \<Rightarrow> fault + int list" where
  "put_pixel ys con pos cL ob =
     (case rd_yiq ys (pos div 2 ^ 12) of Inl e \<Rightarrow> Inl e
      | Inr a \<Rightarrow>
          (case rd_yiq ys (pos div 2 ^ 12 + 1) of Inl e \<Rightarrow> Inl e
           | Inr b \<Rightarrow>
               (case rd ob cL of Inl e \<Rightarrow> Inl e
                | Inr bb \<Rightarrow> wr ob cL (new_pixel a b pos con bb))))"

text \<open>
  The resampling loop \<^verbatim>\<open>for (pos = scanL; pos < scanR && cL < cR; pos += dx)\<close>. \<^verbatim>\<open>pos\<close> is
  \<^verbatim>\<open>unsigned\<close>: it and the bound it is compared with are taken modulo \<open>2 ^ 32\<close>. The pointers
  \<^verbatim>\<open>cL\<close> and \<^verbatim>\<open>cR\<close> are indices into the output buffer.
\<close>

function resample ::
  "yiq option list \<Rightarrow> int \<Rightarrow> int \<Rightarrow> int \<Rightarrow> int \<Rightarrow> int \<Rightarrow> int \<Rightarrow> int list \<Rightarrow> fault + int list" where
  "resample ys con scanR dx cR pos cL ob =
     (if pos < scanR mod 2 ^ 32 \<and> cL < cR then
        (case put_pixel ys con pos cL ob of Inl e \<Rightarrow> Inl e
         | Inr ob' \<Rightarrow> resample ys con scanR dx cR ((pos + dx) mod 2 ^ 32) (cL + 1) ob')
      else Inr ob)"
  by pat_completeness auto
termination
  by (relation "measure (\<lambda>(ys, con, scanR, dx, cR, pos, cL, ob). nat (cR - cL))") auto

text \<open>
  \<^verbatim>\<open>memcpy(v->out + s * v->outw, v->out + (s - 1) * v->outw, ln)\<close> with
  \<^verbatim>\<open>ln = v->outw * sizeof(int)\<close>: row \<open>s - 1\<close> copied onto row \<open>s\<close>. A negative width becomes a
  huge unsigned length.
\<close>

definition copy_row :: "int \<Rightarrow> int \<Rightarrow> int list \<Rightarrow> fault + int list" where
  "copy_row w s ob =
     (if w < 0 then Inl OutOfBounds
      else foldM (\<lambda>k ob. case rd ob ((s - 1) * w + k) of Inl e \<Rightarrow> Inl e
                          | Inr x \<Rightarrow> wr ob (s * w + k) x) [0 .. w - 1] ob)"

text \<open>What the loop over the scan lines carries from one line to the next.\<close>

record draw_state =
  ds_ctx :: CRT
  ds_st :: statics
  ds_ccref :: "int list"
  ds_prev_e :: int
  ds_yiq :: "yiq option list"

definition draw_line :: "crt_h \<Rightarrow> int \<Rightarrow> int \<Rightarrow> int \<Rightarrow> int \<Rightarrow> draw_state \<Rightarrow> fault + draw_state" where
  "draw_line K max_e field bright line D =
     (let v = ds_ctx D;
          beg = ((line - CRT_TOP K + 0) * outh v) sdiv CRT_LINES K + field;
          end0 = ((line - CRT_TOP K + 1) * outh v) sdiv CRT_LINES K + field
      in if beg \<ge> outh v then Inr D
         else
          (let end1 = (if end0 > outh v then outh v else end0);
               ln = POSMOD (line + vsync v) (CRT_VRES K) * CRT_HRES K
           in case hsync_scan K (inp v) (ln + hsync v) (- HSYNC_WINDOW) 0 of Inl e \<Rightarrow> Inl e
              | Inr i \<Rightarrow>
           (let hs = POSMOD (i + hsync v) (CRT_HRES K)
            in case burst K (inp v) (ln + (hs AND NOT 3)) (ds_ccref D) of Inl e \<Rightarrow> Inl e
               | Inr ccref \<Rightarrow>
           (let xpos = POSMOD (AV_BEG K + hs) (CRT_HRES K);
                ypos = POSMOD (line + vsync v) (CRT_VRES K);
                pos = xpos + ypos * CRT_HRES K;
                phasealign = pos AND 3;
                wave = wave_of ccref phasealign (saturation v)
            in case line_sum K (inp v) pos of Inl e \<Rightarrow> Inl e
               | Inr s \<Rightarrow>
           (case cdiv (((max_e div 2 ^ 1) - s) * 2 ^ 10) max_e of Inl e \<Rightarrow> Inl e
               | Inr t \<Rightarrow>
           (let prev_e = (ds_prev_e D * 123) sdiv 128 + t;
                line_w = (AV_LEN K * 112) sdiv 128 + prev_e div 2 ^ 9
            in case cdiv (line_w * 2 ^ 12) (outw v) of Inl e \<Rightarrow> Inl e
               | Inr dx \<Rightarrow>
           (let scanL = ((AV_LEN K sdiv 2) - (line_w div 2 ^ 1) + 8) * 2 ^ 12;
                scanR = (AV_LEN K - 1) * 2 ^ 12;
                L = scanL div 2 ^ 12;
                R = scanR div 2 ^ 12
            in case foldM (demod_step bright wave (inp v) pos) [L .. R - 1]
                      (reset_eqs (ds_st D), ds_yiq D) of Inl e \<Rightarrow> Inl e
               | Inr (G, ys) \<Rightarrow>
           (case resample ys (contrast v) scanR dx (beg * outw v + outw v)
                      (scanL mod 2 ^ 32) (beg * outw v) (out v) of Inl e \<Rightarrow> Inl e
               | Inr ob \<Rightarrow>
           (case foldM (copy_row (outw v)) [beg + 1 .. end1 - 1] ob of Inl e \<Rightarrow> Inl e
               | Inr ob' \<Rightarrow>
                   Inr (D\<lparr> ds_ctx := v\<lparr> hsync := hs, out := ob' \<rparr>, ds_st := G,
                           ds_ccref := ccref, ds_prev_e := prev_e, ds_yiq := ys \<rparr>))))))))))"

subsection \<open>Decoding: crt_draw\<close>

definition crt_draw :: "crt_h \<Rightarrow> statics \<Rightarrow> CRT \<Rightarrow> int \<Rightarrow> fault + (statics \<times> CRT)" where
  "crt_draw K G v noise =
     (let bright = brightness v - (BLACK_LEVEL + black_point v);
          ccref = replicate 4 0
      in case add_noise K noise (analog v) (rn G, inp v) of Inl e \<Rightarrow> Inl e
         | Inr (r, inp') \<Rightarrow>
      (case find_vsync K inp' (vsync v) of Inl e \<Rightarrow> Inl e
         | Inr (line, j) \<Rightarrow>
      (let v1 = v\<lparr> inp := inp', vsync := line \<rparr>;
           max_e = (128 + (noise sdiv 2)) * AV_LEN K;
           prev_e = 16384 sdiv 8;
           ratio0 = (outh v * 2 ^ 16) sdiv CRT_LINES K;
           ratio = (ratio0 + 32768) div 2 ^ 16;
           field = field_of K j * (ratio sdiv 2);
           D0 = \<lparr> ds_ctx = v1, ds_st = G\<lparr> rn := r \<rparr>, ds_ccref = ccref, ds_prev_e = prev_e,
                  ds_yiq = replicate (nat (AV_LEN K + 1)) None \<rparr>
       in case foldM (draw_line K max_e field bright) [CRT_TOP K .. CRT_BOT K - 1] D0 of
            Inl e \<Rightarrow> Inl e
          | Inr D \<Rightarrow> Inr (ds_st D, ds_ctx D))))"

subsection \<open>Encode followed by decode, and the configuration of the statics\<close>

text \<open>
  \<open>encode_decode\<close> is \<^verbatim>\<open>crt_2ntsc\<close> followed by \<^verbatim>\<open>crt_draw\<close> on one context. Two static
  states have the same configuration when the coefficients and gains of the six filters
  agree; the filter histories and the noise state \<^verbatim>\<open>rn\<close> may differ. \<open>same_iir\<close>, \<open>same_eq\<close>
  and \<open>same_draw\<close> are the relations that hold inside the loops, after the filters have been
  reset.
\<close>

definition encode_decode ::
  "crt_h \<Rightarrow> statics \<Rightarrow> CRT \<Rightarrow> NTSC_SETTINGS \<Rightarrow> int \<Rightarrow> fault + (statics \<times> CRT)" where
  "encode_decode K G v s noise =
     (case crt_2ntsc K G v s of Inl e \<Rightarrow> Inl e
      | Inr (G1, v1, s1) \<Rightarrow> crt_draw K G1 v1 noise)"

definition eq_config :: "EQF \<Rightarrow> EQF \<Rightarrow> bool" where
  "eq_config f f' \<longleftrightarrow> lf f = lf f' \<and> hf f = hf f' \<and> g f = g f'"

definition same_config :: "statics \<Rightarrow> statics \<Rightarrow> bool" where
  "same_config G G' \<longleftrightarrow>
     eq_config (eqY G) (eqY G') \<and> eq_config (eqI G) (eqI G') \<and> eq_config (eqQ G) (eqQ G') \<and>
     iir_c (iirY G) = iir_c (iirY G') \<and> iir_c (iirI G) = iir_c (iirI G') \<and>
     iir_c (iirQ G) = iir_c (iirQ G')"

definition same_iir :: "statics \<Rightarrow> statics \<Rightarrow> bool" where
  "same_iir G G' \<longleftrightarrow> same_config G G' \<and> iirY G = iirY G' \<and> iirI G = iirI G' \<and> iirQ G = iirQ G'"

definition same_eq :: "statics \<Rightarrow> statics \<Rightarrow> bool" where
  "same_eq G G' \<longleftrightarrow> same_config G G' \<and> eqY G = eqY G' \<and> eqI G = eqI G' \<and> eqQ G = eqQ G'"

definition same_draw :: "draw_state \<Rightarrow> draw_state \<Rightarrow> bool" where
  "same_draw D D' \<longleftrightarrow>
     ds_ctx D = ds_ctx D' \<and> ds_ccref D = ds_ccref D' \<and> ds_prev_e D = ds_prev_e D' \<and>
     ds_yiq D = ds_yiq D' \<and> same_config (ds_st D) (ds_st D')"

subsection \<open>Concrete states for the examples\<close>

text \<open>
  The statics as the program starts: zero-initialised filters and \<^verbatim>\<open>rn = 194\<close>. A silent
  buffer holds \<^verbatim>\<open>CRT_INPUT_SIZE\<close> samples of 0, as \<^verbatim>\<open>crt_init\<close> leaves both buffers.
\<close>

definition G_boot :: statics where
  "G_boot = (let e = \<lparr> lf = 0, hf = 0, g = [0, 0, 0], fL = [0, 0, 0, 0], fH = [0, 0, 0, 0], h = [0, 0, 0] \<rparr>;
                 l = \<lparr> iir_c = 0, iir_h = 0 \<rparr>
             in \<lparr> eqY = e, eqI = e, eqQ = e, iirY = l, iirI = l, iirQ = l, rn = 194 \<rparr>)"

definition silent :: "crt_h \<Rightarrow> schar list" where
  "silent K = replicate (nat (CRT_INPUT_SIZE K)) 0"

text \<open>
  The context that \<^verbatim>\<open>crt_init\<close> builds for a one-pixel output under \<open>K_ntsc\<close>, with the sync
  state \<^verbatim>\<open>hsync = 900\<close>, \<^verbatim>\<open>vsync = 233\<close> carried over from earlier frames.
\<close>

definition v_bad :: CRT where
  "v_bad = \<lparr> analog = silent K_ntsc, inp = silent K_ntsc, hsync = 900, vsync = 233,
             brightness = 0, contrast = 179, saturation = 18, black_point = 0, white_point = 100,
             outw = 1, outh = 1, out = [0] \<rparr>"

text \<open>
  A header small enough to run the whole pipeline inside the logic: 32 samples per line,
  8 lines, active video on lines 2 and 3; and a two by two source image.
\<close>

definition K_tiny :: crt_h where
  "K_tiny = \<lparr> CRT_CB_FREQ = 4, CRT_HRES = 32, CRT_VRES = 8, CRT_TOP = 2, CRT_BOT = 4,
               CRT_LINES = 2 \<rparr>"

definition tiny_src :: NTSC_SETTINGS where
  "tiny_src = \<lparr> s_rgb = [0xffffff, 0xff0000, 0x00ff00, 0x0000ff], s_w = 2, s_h = 2,
                 s_as_color = 1, s_field = 0 \<rparr>"

text \<open>What noise level 0 makes of a sample: only \<open>-128\<close> is clamped.\<close>

definition quiet :: "schar \<Rightarrow> schar" where
  "quiet a = word_of_int (if sint a < - 127 then - 127 else sint a)"

subsection \<open>Vertical sync, as the spec words it\<close>

text \<open>
  The running sum of a line up to and including sample \<open>j\<close>; the first sample of a line at
  which it is at or below the threshold; the window of candidate lines around the previous
  vsync line, in scanning order. \<open>spec_vsync\<close> is the first line of the window that has a
  crossing, with the crossing's index, or else the last line of the window with index
  \<^verbatim>\<open>CRT_HRES\<close>. \<open>vsync_field\<close> is the parity that \<^verbatim>\<open>crt_draw\<close> derives from that index.
\<close>

definition running_sum :: "crt_h \<Rightarrow> schar list \<Rightarrow> int \<Rightarrow> int \<Rightarrow> int" where
  "running_sum K sig line j = sum_list (map (\<lambda>k. sint (sig ! nat (line * CRT_HRES K + k))) [0 .. j])"

definition crossing :: "crt_h \<Rightarrow> schar list \<Rightarrow> int \<Rightarrow> int \<Rightarrow> bool" where
  "crossing K sig line j = (running_sum K sig line j \<le> 100 * SYNC_LEVEL)"

definition first_crossing :: "crt_h \<Rightarrow> schar list \<Rightarrow> int \<Rightarrow> int option" where
  "first_crossing K sig line = find (crossing K sig line) [0 .. CRT_HRES K - 1]"

definition vsync_window :: "crt_h \<Rightarrow> int \<Rightarrow> int list" where
  "vsync_window K vs = map (\<lambda>i. POSMOD (vs + i) (CRT_VRES K)) [- VSYNC_WINDOW .. VSYNC_WINDOW - 1]"

definition spec_vsync :: "crt_h \<Rightarrow> schar list \<Rightarrow> int \<Rightarrow> int \<times> int" where
  "spec_vsync K sig vs =
     (case find (\<lambda>l. first_crossing K sig l \<noteq> None) (vsync_window K vs) of
        Some l \<Rightarrow> (case first_crossing K sig l of Some j \<Rightarrow> (l, j) | None \<Rightarrow> (l, CRT_HRES K))
      | None \<Rightarrow> (last (vsync_window K vs), CRT_HRES K))"

definition vsync_field :: "crt_h \<Rightarrow> schar list \<Rightarrow> int \<Rightarrow> int" where
  "vsync_field K sig vs =
     (case find (\<lambda>l. first_crossing K sig l \<noteq> None) (vsync_window K vs) of
        Some l \<Rightarrow> (case first_crossing K sig l of
                     Some j \<Rightarrow> (if CRT_HRES K sdiv 2 < j then 1 else 0)
                   | None \<Rightarrow> 1)
      | None \<Rightarrow> 1)"

subsection \<open>The samples that crt_2ntsc assigns\<close>

text \<open>
  Sets of sample indices of the analog buffer. \<open>line_written K s n\<close> holds the indices that the
  first loop of \<^verbatim>\<open>crt_2ntsc\<close> stores to on line \<open>n\<close>: the whole line for the pulse lines
  (\<open>n \<le> 9\<close>) and for the blank lines above \<^verbatim>\<open>CRT_TOP\<close>, and otherwise the samples before
  \<^verbatim>\<open>AV_BEG\<close> together with the burst, which is stored only after line 9 and only for a colour
  signal. \<open>written K s\<close> adds the destination rectangle of the second loop, whose sample for
  column \<open>x\<close> of row \<open>y\<close> is \<open>sample_index K y x\<close>.
\<close>

definition line_written :: "crt_h \<Rightarrow> NTSC_SETTINGS \<Rightarrow> int \<Rightarrow> int set" where
  "line_written K s n =
     {n * CRT_HRES K ..< n * CRT_HRES K + (if n \<le> 9 \<or> n < CRT_TOP K then CRT_HRES K else AV_BEG K)} \<union>
     (if 9 < n \<and> s_as_color s \<noteq> 0
      then {n * CRT_HRES K + CB_BEG K ..< n * CRT_HRES K + CB_BEG K + CB_CYCLES * CRT_CB_FREQ K}
      else {})"

definition sample_index :: "crt_h \<Rightarrow> int \<Rightarrow> int \<Rightarrow> int" where
  "sample_index K y x = (x + xo K) + (y + yo K) * CRT_HRES K"

definition written :: "crt_h \<Rightarrow> NTSC_SETTINGS \<Rightarrow> int set" where
  "written K s = (\<Union>n\<in>{0 .. CRT_VRES K - 1}. line_written K s n) \<union>
     (\<Union>y\<in>{0 .. desth K - 1}. \<Union>x\<in>{0 .. destw K - 1}. {sample_index K y x})"

text \<open>
  Two buffers agree on a set of indices; a buffer keeps the values of another one everywhere
  off a set of indices.
\<close>

definition agree_on :: "int set \<Rightarrow> 'a list \<Rightarrow> 'a list \<Rightarrow> bool" where
  "agree_on S a b \<longleftrightarrow> length a = length b \<and> (\<forall>p\<in>S. 0 \<le> p \<longrightarrow> a ! nat p = b ! nat p)"

definition kept_off :: "int set \<Rightarrow> 'a list \<Rightarrow> 'a list \<Rightarrow> bool" where
  "kept_off S a0 a \<longleftrightarrow> length a = length a0 \<and> (\<forall>p. 0 \<le> p \<longrightarrow> p \<notin> S \<longrightarrow> a ! nat p = a0 ! nat p)"

text \<open>
  A context whose analog buffer holds \<open>-100\<close> everywhere, a level that \<^verbatim>\<open>crt_2ntsc\<close> never
  stores, and a source image of one column and 240 rows.
\<close>

definition stale :: "crt_h \<Rightarrow> schar list" where
  "stale K = replicate (nat (CRT_INPUT_SIZE K)) (- 100)"

definition v_stale :: CRT where
  "v_stale = \<lparr> analog = stale K_ntsc, inp = silent K_ntsc, hsync = 0, vsync = 0,
               brightness = 0, contrast = 179, saturation = 18, black_point = 0, white_point = 100,
               outw = 1, outh = 1, out = [0] \<rparr>"

definition frame_src :: NTSC_SETTINGS where
  "frame_src = \<lparr> s_rgb = replicate 240 0, s_w = 1, s_h = 240, s_as_color = 1, s_field = 0 \<rparr>"

declare vsync_line.simps [simp del] vsync_scan.simps [simp del] hsync_scan.simps [simp del]
  resample.simps [simp del]

section \<open>Properties of the equalizer\<close>

lemma eqf_stage_keeps:
  "lf (eqf_stage i f) = lf f" "hf (eqf_stage i f) = hf f"
  "g (eqf_stage i f) = g f" "h (eqf_stage i f) = h f"
  by (simp_all add: eqf_stage_def Let_def)

lemma fold_eqf_stage_keeps:
  "lf (fold eqf_stage is f) = lf f \<and> hf (fold eqf_stage is f) = hf f \<and>
   g (fold eqf_stage is f) = g f \<and> h (fold eqf_stage is f) = h f"
  by (induction "is" arbitrary: f) (simp_all add: eqf_stage_keeps)

lemma eqf_cascade_keeps:
  "lf (eqf_cascade f s) = lf f" "hf (eqf_cascade f s) = hf f"
  "g (eqf_cascade f s) = g f" "h (eqf_cascade f s) = h f"
  by (simp_all add: eqf_cascade_def Let_def fold_eqf_stage_keeps)

lemma eqf_band_sum_eq: "eqf_band_sum f s = h f ! HISTOLD"
  by (simp add: eqf_band_sum_def eqf_bands_def eqf_cascade_keeps)

lemma eqf_hist_shift:
  "length (h f) = 3 \<Longrightarrow> h (eqf_hist f s) = [s, h f ! 0, h f ! 1]"
proof -
  assume "length (h f) = 3"
  then obtain a b c where "h f = [a, b, c]"
    by (metis (no_types) length_0_conv length_Suc_conv numeral_3_eq_3)
  then show ?thesis
    by (simp add: eqf_hist_def HISTOLD_def HISTLEN_def HISTNEW_def upt_rec)
qed

lemma h_eqf: "length (h f) = 3 \<Longrightarrow> h (fst (eqf f s)) = [s, h f ! 0, h f ! 1]"
  by (simp add: eqf_def Let_def eqf_hist_shift eqf_cascade_keeps)

lemma eqf_keeps:
  "lf (fst (eqf f s)) = lf f" "hf (fst (eqf f s)) = hf f" "g (fst (eqf f s)) = g f"
  by (simp_all add: eqf_def Let_def eqf_hist_def eqf_cascade_keeps)

lemma reset_eq_eqf: "reset_eq (fst (eqf f s)) = reset_eq f"
  by (rule EQF.equality) (simp_all add: reset_eq_def eqf_keeps)

lemma reset_eq_eqf_run: "reset_eq (fst (eqf_run f xs)) = reset_eq f"
proof (induction xs arbitrary: f)
  case Nil
  show ?case by simp
next
  case (Cons s ss)
  have "reset_eq (fst (eqf_run (fst (eqf f s)) ss)) = reset_eq (fst (eqf f s))"
    by (rule Cons.IH)
  then show ?case
    by (simp add: reset_eq_eqf split_beta Let_def)
qed

lemma reset_eq_init_eq: "reset_eq (init_eq f_lo f_hi rate g_lo g_mid g_hi) = init_eq f_lo f_hi rate g_lo g_mid g_hi"
  by (simp add: reset_eq_def init_eq_def Let_def)

lemma length_h_eqf: "length (h f) = 3 \<Longrightarrow> length (h (fst (eqf f s))) = 3"
  by (simp add: h_eqf)

lemma h_eqf_run:
  "length (h f) = 3 \<Longrightarrow> h (fst (eqf_run f xs)) = take 3 (rev xs @ h f)"
proof (induction xs arbitrary: f)
  case Nil
  then show ?case by simp
next
  case (Cons s ss)
  from Cons.prems obtain a b c where abc: "h f = [a, b, c]"
    by (metis (no_types) length_0_conv length_Suc_conv numeral_3_eq_3)
  have h1: "h (fst (eqf f s)) = [s, a, b]"
    using Cons.prems abc by (simp add: h_eqf)
  have "h (fst (eqf_run (fst (eqf f s)) ss)) = take 3 (rev ss @ [s, a, b])"
    using Cons.IH [of "fst (eqf f s)"] h1 by simp
  also have "\<dots> = take 3 (rev ss @ [s, a, b, c])"
    by (simp add: take_Cons')
  finally show ?case
    by (simp add: abc split_beta Let_def)
qed

lemma third_newest:
  "(rev xs @ [0, 0, 0::int]) ! 2 = (if 3 \<le> length xs then xs ! (length xs - 3) else 0)"
proof (cases "3 \<le> length xs")
  case True
  then have "(rev xs @ [0, 0, 0::int]) ! 2 = rev xs ! 2"
    by (simp add: nth_append)
  also have "\<dots> = xs ! (length xs - Suc 2)"
    using True by (simp add: rev_nth)
  finally show ?thesis using True by simp
next
  case False
  then have "length xs = 0 \<or> length xs = 1 \<or> length xs = 2" by arith
  then show ?thesis
    using False by (auto simp: nth_append)
qed

text \<open>
  C6 (as the code has it). The three bands before gain scaling add up to exactly the
  oldest entry of the raw-sample history, \<^verbatim>\<open>h[HISTOLD]\<close>. After a reset and the samples
  \<open>xs\<close>, that entry is the sample fed three steps before the current one, and zero while
  fewer than three samples have been fed: the bands reconstruct the input delayed by
  three samples, exactly, not the sample of the current step.
\<close>

theorem eqf_band_sum_is_delayed_sample:
  "eqf_band_sum f s = h f ! HISTOLD \<and>
   eqf_band_sum (fst (eqf_run (reset_eq f) xs)) s =
     (if 3 \<le> length xs then xs ! (length xs - 3) else 0)"
proof -
  have "h (fst (eqf_run (reset_eq f) xs)) = take 3 (rev xs @ [0, 0, 0])"
    using h_eqf_run [of "reset_eq f" xs]
    by (simp add: reset_eq_def HISTLEN_def numeral_3_eq_3)
  moreover have "take 3 ys ! 2 = ys ! 2" for ys :: "int list"
    by (rule nth_take) simp
  ultimately have "h (fst (eqf_run (reset_eq f) xs)) ! 2 = (rev xs @ [0, 0, 0]) ! 2"
    by (simp only:)
  then show ?thesis
    by (simp add: eqf_band_sum_eq third_newest HISTOLD_def HISTLEN_def)
qed

text \<open>
  C6 (as the spec states it) fails: on a freshly configured luma equalizer the first
  sample 100 gives three bands that add up to 0, one hundred away from the sample.
\<close>

theorem eqf_band_sum_counterexample:
  "eqf_band_sum (init_eq 95 190 910 65536 8192 9175) 100 = 0 \<and>
   \<not> \<bar>eqf_band_sum (init_eq 95 190 910 65536 8192 9175) 100 - 100\<bar> \<le> 1"
  by (simp add: eqf_band_sum_eq init_eq_def Let_def HISTOLD_def HISTLEN_def numeral_3_eq_3)

text \<open>
  C7. Run a sample sequence through a filter whose history is clear (after
  \<^verbatim>\<open>reset_eq\<close>, or fresh from \<^verbatim>\<open>init_eq\<close>), reset it, and run the same sequence again: the
  two output sequences are equal. The coefficients and gains are whatever the filter was
  configured with.
\<close>

theorem eqf_reset_independence:
  "snd (eqf_run (reset_eq (fst (eqf_run (reset_eq f) xs))) xs) = snd (eqf_run (reset_eq f) xs) \<and>
   snd (eqf_run (reset_eq (fst (eqf_run (init_eq f_lo f_hi rate g_lo g_mid g_hi) xs))) xs)
     = snd (eqf_run (init_eq f_lo f_hi rate g_lo g_mid g_hi) xs)"
proof -
  have "reset_eq (fst (eqf_run (reset_eq f) xs)) = reset_eq f"
    by (simp add: reset_eq_eqf_run) (simp add: reset_eq_def)
  moreover have "reset_eq (fst (eqf_run (init_eq f_lo f_hi rate g_lo g_mid g_hi) xs))
      = init_eq f_lo f_hi rate g_lo g_mid g_hi"
    by (simp add: reset_eq_eqf_run reset_eq_init_eq)
  ultimately show ?thesis by simp
qed

section \<open>Loops\<close>

lemma foldM_append:
  "foldM f (xs @ ys) s = (case foldM f xs s of Inl e \<Rightarrow> Inl e | Inr s' \<Rightarrow> foldM f ys s')"
  by (induction xs arbitrary: s) (auto split: sum.splits)

lemma foldM_invariant:
  assumes "foldM f xs s = Inr s'" and "P s"
    and "\<And>x t t'. x \<in> set xs \<Longrightarrow> P t \<Longrightarrow> f x t = Inr t' \<Longrightarrow> P t'"
  shows "P s'"
  using assms
proof (induction xs arbitrary: s)
  case Nil
  then show ?case by simp
next
  case (Cons x xs)
  from Cons.prems(1) obtain t where t: "f x s = Inr t" and r: "foldM f xs t = Inr s'"
    by (auto split: sum.splits)
  have "P t" by (rule Cons.prems(3) [of x s t]) (simp_all add: Cons.prems(2) t)
  then show ?case
    by (rule Cons.IH [OF r]) (rule Cons.prems(3) [where x = x for x], simp_all)
qed

lemma upto_snoc: "[0 .. int (Suc n) - 1] = [0 .. int n - 1] @ [int n]"
  using upto_rec2 [of 0 "int n"] by simp


section \<open>Noise injection\<close>

lemma noisy_sample_range: "- 127 \<le> noisy_sample r noise a \<and> noisy_sample r noise a \<le> 127"
  by (simp add: noisy_sample_def Let_def)

lemma sint_schar: "- 128 \<le> x \<Longrightarrow> x \<le> 127 \<Longrightarrow> sint (word_of_int x :: schar) = x"
  by (simp add: int_word_sint)

lemma noise_step_Inr:
  "int n < int (length an) \<Longrightarrow> n < length ws \<Longrightarrow>
   noise_step noise an (int n) (r, ws) =
     Inr (rn_next r, ws[n := word_of_int (noisy_sample (rn_next r) noise (an ! n))])"
  by (simp add: noise_step_def rd_def wr_def Let_def)

lemma noise_fold:
  "n \<le> length an \<Longrightarrow> n \<le> length ws \<Longrightarrow>
   \<exists>r' ws'. foldM (noise_step noise an) [0 .. int n - 1] (r, ws) = Inr (r', ws') \<and>
     length ws' = length ws \<and>
     (\<forall>i<n. - 127 \<le> sint (ws' ! i) \<and> sint (ws' ! i) \<le> 127) \<and>
     (\<forall>i\<ge>n. ws' ! i = ws ! i)"
proof (induction n)
  case 0
  then show ?case by simp
next
  case (Suc n)
  then obtain r1 ws1 where
    f: "foldM (noise_step noise an) [0 .. int n - 1] (r, ws) = Inr (r1, ws1)" and
    l: "length ws1 = length ws" and
    b: "\<forall>i<n. - 127 \<le> sint (ws1 ! i) \<and> sint (ws1 ! i) \<le> 127" and
    u: "\<forall>i\<ge>n. ws1 ! i = ws ! i"
    by auto
  let ?x = "noisy_sample (rn_next r1) noise (an ! n)"
  let ?ws = "ws1[n := word_of_int ?x]"
  have st: "noise_step noise an (int n) (r1, ws1) = Inr (rn_next r1, ?ws)"
    using Suc.prems l by (simp add: noise_step_Inr)
  have x: "sint (word_of_int ?x :: schar) = ?x"
    using noisy_sample_range [of "rn_next r1" noise "an ! n"] by (simp add: sint_schar)
  have "foldM (noise_step noise an) [0 .. int (Suc n) - 1] (r, ws) = Inr (rn_next r1, ?ws)"
    by (simp only: upto_snoc foldM_append f) (simp add: st)
  moreover have "\<forall>i<Suc n. - 127 \<le> sint (?ws ! i) \<and> sint (?ws ! i) \<le> 127"
  proof (intro allI impI)
    fix i assume "i < Suc n"
    show "- 127 \<le> sint (?ws ! i) \<and> sint (?ws ! i) \<le> 127"
    proof (cases "i = n")
      case True
      then show ?thesis
        using Suc.prems l x noisy_sample_range [of "rn_next r1" noise "an ! n"] by simp
    next
      case False
      then show ?thesis using \<open>i < Suc n\<close> b by simp
    qed
  qed
  moreover have "\<forall>i\<ge>Suc n. ?ws ! i = ws ! i"
    using u by simp
  ultimately show ?case using l by simp
qed

text \<open>
  C4. With the two buffers of the context at their declared size, the noise loop of
  \<^verbatim>\<open>crt_draw\<close> runs to its end without a fault, for every noise level, generator state and
  content of the analog buffer, and every sample of the working copy it leaves lies in
  \<open>[-127, 127]\<close>; the store into the \<^verbatim>\<open>signed char\<close> does not wrap.
\<close>

theorem noise_injection_in_range:
  assumes "length an = nat (CRT_INPUT_SIZE K)" and "length ws = nat (CRT_INPUT_SIZE K)"
  shows "\<exists>r' ws'. add_noise K noise an (r, ws) = Inr (r', ws') \<and> length ws' = length ws \<and>
           (\<forall>i<length ws'. - 127 \<le> sint (ws' ! i) \<and> sint (ws' ! i) \<le> 127)"
proof (cases "0 \<le> CRT_INPUT_SIZE K")
  case True
  let ?n = "nat (CRT_INPUT_SIZE K)"
  have e: "[0 .. CRT_INPUT_SIZE K - 1] = [0 .. int ?n - 1]"
    using True by simp
  have "?n \<le> length an" and "?n \<le> length ws"
    using assms by simp_all
  from noise_fold [OF this, of noise r] obtain r' ws' where
    f: "foldM (noise_step noise an) [0 .. int ?n - 1] (r, ws) = Inr (r', ws')" and
    l: "length ws' = length ws" and
    b: "\<forall>i<?n. - 127 \<le> sint (ws' ! i) \<and> sint (ws' ! i) \<le> 127"
    by blast
  have "add_noise K noise an (r, ws) = Inr (r', ws')"
    unfolding add_noise_def e by (rule f)
  then show ?thesis
    using l b assms(2) by simp
next
  case False
  then have "[0 .. CRT_INPUT_SIZE K - 1] = []" by simp
  then show ?thesis
    using False assms(2) by (simp add: add_noise_def)
qed

theorem noise_injection_in_range_witness:
  "\<exists>r' ws'. add_noise K_ntsc 255 (replicate (nat (CRT_INPUT_SIZE K_ntsc)) (- 128))
        (194, replicate (nat (CRT_INPUT_SIZE K_ntsc)) 0) = Inr (r', ws') \<and>
      length ws' = length (replicate (nat (CRT_INPUT_SIZE K_ntsc)) (0 :: schar)) \<and>
      (\<forall>i<length ws'. - 127 \<le> sint (ws' ! i) \<and> sint (ws' ! i) \<le> 127)"
  using noise_injection_in_range [of "replicate (nat (CRT_INPUT_SIZE K_ntsc)) (- 128)" K_ntsc
      "replicate (nat (CRT_INPUT_SIZE K_ntsc)) 0" 255 194]
  by (simp only: length_replicate)

section \<open>Chroma burst recovery\<close>

lemma ccref_update_bound: "\<bar>128 * ccref_update old n - (127 * old + 128 * n)\<bar> < 128"
proof -
  have "\<bar>128 * (x sdiv 128) - x\<bar> < 128" for x :: int
    by (cases "x \<ge> 0") (simp_all add: signed_divide_int_def sgn_if abs_if, presburger+)
  from this [of "old * 127"] show ?thesis
    by (simp add: ccref_update_def algebra_simps)
qed

lemma ccref_update_fixed: "ccref_update (128 * n) n = 128 * n"
proof -
  have "(a * 128) sdiv 128 = a" for a :: int
    by (simp add: signed_divide_int_def abs_mult sgn_mult mult_sgn_abs)
  from this [of "127 * n"] show ?thesis
    by (simp add: ccref_update_def mult.commute mult.left_commute)
qed

lemma and3_mod4: "(i::int) AND 3 = i mod 4"
proof -
  have "i AND mask 2 = i mod 2 ^ 2"
    by (simp flip: take_bit_eq_mask add: take_bit_eq_mod)
  then show ?thesis by (simp add: mask_eq_exp_minus_1)
qed

lemma burst_step_nth:
  "burst_step sig base i ac = Inr ac' \<Longrightarrow> length ac = 4 \<Longrightarrow> 0 \<le> k \<Longrightarrow> k < 4 \<Longrightarrow>
   length ac' = 4 \<and>
   ac' ! nat k = (if i mod 4 = k then ccref_update (ac ! nat k) (sint (sig ! nat (base + i))) else ac ! nat k)"
  apply (auto simp: burst_step_def rd_def and3_mod4 split: if_splits)
  done

lemma burst_fold:
  "foldM (burst_step sig base) is ac = Inr ac' \<Longrightarrow> length ac = 4 \<Longrightarrow> 0 \<le> k \<Longrightarrow> k < 4 \<Longrightarrow>
   length ac' = 4 \<and>
   ac' ! nat k = fold (\<lambda>i a. ccref_update a (sint (sig ! nat (base + i))))
                   (filter (\<lambda>i. i mod 4 = k) is) (ac ! nat k)"
proof (induction "is" arbitrary: ac)
  case Nil
  then show ?case by simp
next
  case (Cons i "is")
  from Cons.prems(1) obtain c1 where
    s: "burst_step sig base i ac = Inr c1" and r: "foldM (burst_step sig base) is c1 = Inr ac'"
    by (auto split: sum.splits)
  from burst_step_nth [OF s Cons.prems(2,3,4)] Cons.IH [OF r _ Cons.prems(3,4)]
  show ?case by simp
qed

text \<open>
  C2 (as the code has it). Over the burst window, accumulator \<open>k\<close> is updated once for each
  sample position \<open>i\<close> with \<open>i mod 4 = k\<close>, in order, and by nothing else. An update takes
  127/128 of the previous value (truncated towards zero) and adds the new sample whole:
  the sample has weight 1, not 1/128, and a constant burst sample \<open>n\<close> holds the
  accumulator at \<open>128 * n\<close>.
\<close>

theorem burst_accumulators:
  assumes "burst K sig base ac = Inr ac'" and "length ac = 4" and "0 \<le> k" and "k < 4"
  shows "ac' ! nat k =
           fold (\<lambda>i a. ccref_update a (sint (sig ! nat (base + i))))
             (filter (\<lambda>i. i mod 4 = k) [CB_BEG K .. CB_BEG K + CB_CYCLES * CRT_CB_FREQ K - 1])
             (ac ! nat k) \<and>
         \<bar>128 * ccref_update old n - (127 * old + 128 * n)\<bar> < 128 \<and>
         ccref_update (128 * n) n = 128 * n"
  using burst_fold [OF assms [unfolded burst_def]] ccref_update_bound ccref_update_fixed
  by simp

theorem burst_accumulators_witness:
  "burst K_ntsc (replicate 200 5) 0 [0, 0, 0, 0] = Inr [41, 41, 41, 41] \<and>
   [41, 41, 41, 41] ! nat 1 =
     fold (\<lambda>i a. ccref_update a (sint (replicate 200 (5 :: schar) ! nat (0 + i))))
       (filter (\<lambda>i. i mod 4 = 1) [CB_BEG K_ntsc .. CB_BEG K_ntsc + CB_CYCLES * CRT_CB_FREQ K_ntsc - 1])
       ([0, 0, 0, 0] ! nat 1)"
proof -
  have b: "burst K_ntsc (replicate 200 5) 0 [0, 0, 0, 0] = Inr [41, 41, 41, 41]"
    by code_simp
  from burst_accumulators [OF b, of 1] b show ?thesis
    by simp
qed

text \<open>
  C2 (as the spec states it) fails: with the accumulator at 0, a burst sample of 100
  leaves it at 100; weights of 127/128 and 1/128 would leave it below 1.
\<close>

theorem burst_weight_counterexample:
  "burst_step [100] 0 0 [0, 0, 0, 0] = Inr [100, 0, 0, 0] \<and>
   \<not> \<bar>128 * ccref_update 0 100 - (127 * 0 + 1 * 100)\<bar> < 128"
  by (simp add: burst_step_def rd_def ccref_update_def)

section \<open>Decoded pixels\<close>

lemma and_ff: "(x::int) AND 0xff = take_bit 8 x"
  using take_bit_eq_mask [of 8 x] by (simp add: mask_eq_exp_minus_1)

lemma chan_bits:
  "chan_r p = take_bit 8 (drop_bit 16 p)" "chan_g p = take_bit 8 (drop_bit 8 p)"
  "chan_b p = take_bit 8 p"
  by (simp_all add: chan_r_def chan_g_def chan_b_def and_ff drop_bit_eq_div)

lemma mask_fefeff: "(0xfefeff::int) = push_bit 17 (mask 7) OR push_bit 9 (mask 7) OR mask 8"
  by (simp add: mask_eq_exp_minus_1 push_bit_eq_mult)

lemma halve_masked_bits:
  "drop_bit 1 ((x::int) AND 0xfefeff) =
     push_bit 16 (take_bit 7 (drop_bit 17 x)) OR push_bit 8 (take_bit 7 (drop_bit 9 x))
       OR take_bit 7 (drop_bit 1 x)"
  unfolding mask_fefeff
  by (rule bit_eqI) (auto simp: bit_simps)

lemma halve_chan:
  "chan_r x div 2 = take_bit 7 (drop_bit 17 x)" "chan_g x div 2 = take_bit 7 (drop_bit 9 x)"
  "chan_b x div 2 = take_bit 7 (drop_bit 1 x)"
proof -
  have "drop_bit 1 (chan_r x) = take_bit 7 (drop_bit 17 x)"
    by (simp add: chan_bits drop_bit_take_bit)
  then show "chan_r x div 2 = take_bit 7 (drop_bit 17 x)"
    by (simp add: drop_bit_eq_div)
  have "drop_bit 1 (chan_g x) = take_bit 7 (drop_bit 9 x)"
    by (simp add: chan_bits drop_bit_take_bit)
  then show "chan_g x div 2 = take_bit 7 (drop_bit 9 x)"
    by (simp add: drop_bit_eq_div)
  have "drop_bit 1 (chan_b x) = take_bit 7 (drop_bit 1 x)"
    by (simp add: chan_bits drop_bit_take_bit)
  then show "chan_b x div 2 = take_bit 7 (drop_bit 1 x)"
    by (simp add: drop_bit_eq_div)
qed

lemma halve_masked:
  "((x::int) AND 0xfefeff) div 2 ^ 1 =
     (chan_r x div 2) * 2 ^ 16 + (chan_g x div 2) * 2 ^ 8 + chan_b x div 2"
proof -
  let ?a = "push_bit 16 (take_bit 7 (drop_bit 17 x))"
  let ?b = "push_bit 8 (take_bit 7 (drop_bit 9 x))"
  let ?c = "take_bit 7 (drop_bit 1 x)"
  have bc: "?b + ?c = ?b OR ?c"
    by (rule disjunctive_add) (auto simp: bit_simps)
  have abc: "?a + (?b OR ?c) = ?a OR (?b OR ?c)"
    by (rule disjunctive_add) (auto simp: bit_simps)
  have "drop_bit 1 (x AND 0xfefeff) = ?a OR ?b OR ?c"
    by (rule halve_masked_bits)
  also have "\<dots> = ?a + (?b + ?c)"
    by (simp only: bc abc)
  finally have "drop_bit 1 (x AND 0xfefeff) = ?a + ?b + ?c"
    by (simp only: add.assoc)
  then show ?thesis
    unfolding halve_chan push_bit_eq_mult drop_bit_eq_div by (simp only: power_one_right)
qed

lemma byte_bits: "0 \<le> (r::int) \<Longrightarrow> r < 256 \<Longrightarrow> take_bit 8 r = r"
  by (simp add: take_bit_eq_mod)

lemma chan_pack:
  assumes "0 \<le> r" "r < 256" "0 \<le> gg" "gg < 256" "0 \<le> b" "b < 256"
  shows "chan_r (pack_rgb (r, gg, b)) = r" "chan_g (pack_rgb (r, gg, b)) = gg"
    "chan_b (pack_rgb (r, gg, b)) = b"
proof -
  have p: "pack_rgb (r, gg, b) = push_bit 16 (take_bit 8 r) OR push_bit 8 (take_bit 8 gg) OR take_bit 8 b"
    using assms by (simp add: pack_rgb_def push_bit_eq_mult byte_bits)
  have "chan_r (pack_rgb (r, gg, b)) = take_bit 8 r"
    unfolding p chan_bits by (rule bit_eqI) (auto simp: bit_simps)
  then show "chan_r (pack_rgb (r, gg, b)) = r" using assms by (simp add: byte_bits)
  have "chan_g (pack_rgb (r, gg, b)) = take_bit 8 gg"
    unfolding p chan_bits by (rule bit_eqI) (auto simp: bit_simps)
  then show "chan_g (pack_rgb (r, gg, b)) = gg" using assms by (simp add: byte_bits)
  have "chan_b (pack_rgb (r, gg, b)) = take_bit 8 b"
    unfolding p chan_bits by (rule bit_eqI) (auto simp: bit_simps)
  then show "chan_b (pack_rgb (r, gg, b)) = b" using assms by (simp add: byte_bits)
qed

lemma channel_range: "0 \<le> channel m con \<and> channel m con \<le> 255"
  by (simp add: channel_def Let_def)

lemma blend_channels:
  assumes "0 \<le> r" "r < 256" "0 \<le> gg" "gg < 256" "0 \<le> b" "b < 256"
  shows "blend (pack_rgb (r, gg, b)) bb =
           (r div 2 + chan_r bb div 2) * 2 ^ 16 + (gg div 2 + chan_g bb div 2) * 2 ^ 8
             + (b div 2 + chan_b bb div 2)"
  unfolding blend_def halve_masked chan_pack [OF assms] by (simp add: algebra_simps)

lemma pack_rgb_sum:
  assumes "0 \<le> r" "r < 256" "0 \<le> gg" "gg < 256" "0 \<le> b" "b < 256"
  shows "pack_rgb (r, gg, b) = r * 2 ^ 16 + gg * 2 ^ 8 + b"
proof -
  let ?a = "push_bit 16 (take_bit 8 r)" and ?b = "push_bit 8 (take_bit 8 gg)" and ?c = "take_bit 8 b"
  have bc: "?b + ?c = ?b OR ?c"
    by (rule disjunctive_add) (auto simp: bit_simps)
  have abc: "?a + (?b OR ?c) = ?a OR (?b OR ?c)"
    by (rule disjunctive_add) (auto simp: bit_simps)
  have "?a OR ?b OR ?c = ?a + (?b + ?c)"
    by (simp only: bc abc)
  then show ?thesis
    using assms by (simp add: pack_rgb_def push_bit_eq_mult byte_bits)
qed

lemma chan_range: "0 \<le> chan_r p \<and> chan_r p < 256 \<and> 0 \<le> chan_g p \<and> chan_g p < 256 \<and> 0 \<le> chan_b p \<and> chan_b p < 256"
  by (simp add: chan_bits take_bit_eq_mod)

lemma decoded_rgb_range:
  "case decoded_rgb a b pos con of (r, gg, bl) \<Rightarrow>
     0 \<le> r \<and> r \<le> 255 \<and> 0 \<le> gg \<and> gg \<le> 255 \<and> 0 \<le> bl \<and> bl \<le> 255"
  by (simp add: decoded_rgb_def yiq_rgb_def channel_range split: prod.splits)

text \<open>
  C5. The pixel that the resampling loop stores is, channel by channel, half the decoded and
  clamped channel plus half the channel of the pixel already there. The decoded channels lie
  in \<open>[0, 255]\<close>; each stored channel lies in \<open>[0, 254]\<close>, no channel carries into its
  neighbour, and nothing is stored above bit 23, whatever the previous pixel, the decoded
  samples and the contrast are.
\<close>

theorem decoded_pixel_in_range:
  "(case decoded_rgb a b pos con of (r, gg, bl) \<Rightarrow>
      0 \<le> r \<and> r \<le> 255 \<and> 0 \<le> gg \<and> gg \<le> 255 \<and> 0 \<le> bl \<and> bl \<le> 255 \<and>
      chan_r (new_pixel a b pos con bb) = r div 2 + chan_r bb div 2 \<and>
      chan_g (new_pixel a b pos con bb) = gg div 2 + chan_g bb div 2 \<and>
      chan_b (new_pixel a b pos con bb) = bl div 2 + chan_b bb div 2) \<and>
   0 \<le> new_pixel a b pos con bb \<and> new_pixel a b pos con bb < 2 ^ 24 \<and>
   chan_r (new_pixel a b pos con bb) \<le> 254 \<and>
   chan_g (new_pixel a b pos con bb) \<le> 254 \<and>
   chan_b (new_pixel a b pos con bb) \<le> 254"
proof -
  obtain r gg bl where d: "decoded_rgb a b pos con = (r, gg, bl)"
    by (cases "decoded_rgb a b pos con") auto
  have rg: "0 \<le> r" "r < 256" "0 \<le> gg" "gg < 256" "0 \<le> bl" "bl < 256"
    using decoded_rgb_range [of a b pos con] d by simp_all
  let ?R = "r div 2 + chan_r bb div 2" and ?G = "gg div 2 + chan_g bb div 2"
    and ?B = "bl div 2 + chan_b bb div 2"
  have RGB: "0 \<le> ?R" "?R < 255" "0 \<le> ?G" "?G < 255" "0 \<le> ?B" "?B < 255"
    using rg chan_range [of bb] by presburger+
  have p: "new_pixel a b pos con bb = ?R * 2 ^ 16 + ?G * 2 ^ 8 + ?B"
    unfolding new_pixel_def d by (rule blend_channels [OF rg])
  have RGB': "0 \<le> ?R" "?R < 256" "0 \<le> ?G" "?G < 256" "0 \<le> ?B" "?B < 256"
    using RGB by simp_all
  have q: "new_pixel a b pos con bb = pack_rgb (?R, ?G, ?B)"
    unfolding p by (rule pack_rgb_sum [OF RGB', symmetric])
  have c: "chan_r (new_pixel a b pos con bb) = ?R" "chan_g (new_pixel a b pos con bb) = ?G"
    "chan_b (new_pixel a b pos con bb) = ?B"
    unfolding q by (rule chan_pack [OF RGB'])+
  have "0 \<le> new_pixel a b pos con bb" and "new_pixel a b pos con bb < 2 ^ 24"
    unfolding p using RGB by simp_all
  then show ?thesis
    using d rg c RGB by simp
qed

section \<open>Vertical sync acquisition\<close>

lemma POSMOD_mod: "0 < n \<Longrightarrow> POSMOD x n = x mod n"
proof -
  assume n: "0 < n"
  define b :: int where "b = of_bool (sgn x \<noteq> sgn n \<and> \<not> n dvd x)"
  have 1: "x smod n = x mod n - n * b"
    unfolding b_def by (rule signed_modulo_int_eq_modulo_int)
  have b: "b = 0 \<or> b = 1" by (auto simp: b_def)
  have "0 \<le> x mod n" "x mod n < n" using n by simp_all
  then have "0 \<le> x smod n + n" using 1 b n by auto
  then have "(x smod n + n) smod n = (x smod n + n) mod n"
    using n by (simp add: smod_mod_positive)
  also have "\<dots> = (x mod n + n * (1 - b)) mod n"
    by (simp add: 1 algebra_simps)
  also have "\<dots> = x mod n"
    by simp
  finally show ?thesis by (simp add: POSMOD_def)
qed

lemma POSMOD_range: "0 < n \<Longrightarrow> 0 \<le> POSMOD x n \<and> POSMOD x n < n"
  by (simp add: POSMOD_mod)

lemma running_sum_step:
  "0 \<le> j \<Longrightarrow> running_sum K sig line j = running_sum K sig line (j - 1) + sint (sig ! nat (line * CRT_HRES K + j))"
  by (simp add: running_sum_def upto_rec2)

lemma vsync_line_find:
  "0 \<le> j \<Longrightarrow> \<forall>k. j \<le> k \<and> k < CRT_HRES K \<longrightarrow> 0 \<le> line * CRT_HRES K + k \<and> line * CRT_HRES K + k < int (length sig) \<Longrightarrow>
   s = running_sum K sig line (j - 1) \<Longrightarrow>
   vsync_line K sig line j s =
     Inr (case find (crossing K sig line) [j .. CRT_HRES K - 1] of
            Some j' \<Rightarrow> (True, j') | None \<Rightarrow> (False, max j (CRT_HRES K)))"
proof (induction K sig line j s rule: vsync_line.induct)
  case (1 K sig line j s)
  show ?case
  proof (cases "j < CRT_HRES K")
    case False
    then show ?thesis by (simp add: vsync_line.simps [of K sig line j s])
  next
    case True
    let ?x = "sig ! nat (line * CRT_HRES K + j)"
    have r: "rd sig (line * CRT_HRES K + j) = Inr ?x"
      using True "1.prems" by (simp add: rd_def)
    have s': "s + sint ?x = running_sum K sig line j"
      using "1.prems" by (simp add: running_sum_step)
    have u: "[j .. CRT_HRES K - 1] = j # [j + 1 .. CRT_HRES K - 1]"
      using True by (simp add: upto_rec1)
    show ?thesis
    proof (cases "crossing K sig line j")
      case c: True
      then show ?thesis
        using True r s' by (subst vsync_line.simps) (simp add: u crossing_def)
    next
      case c: False
      have n: "\<not> s + sint ?x \<le> 100 * SYNC_LEVEL"
        using c s' by (simp add: crossing_def)
      have "vsync_line K sig line (j + 1) (s + sint ?x) =
        Inr (case find (crossing K sig line) [j + 1 .. CRT_HRES K - 1] of
            Some j' \<Rightarrow> (True, j') | None \<Rightarrow> (False, max (j + 1) (CRT_HRES K)))"
        using "1.prems" s' by (intro "1.IH" [OF True r refl n]) simp_all
      moreover have "vsync_line K sig line j s = vsync_line K sig line (j + 1) (s + sint ?x)"
        using True r n by (subst vsync_line.simps) simp
      moreover have "max (j + 1) (CRT_HRES K) = max j (CRT_HRES K)"
        using True by simp
      ultimately show ?thesis
        using c by (simp add: u split: option.split)
    qed
  qed
qed

lemma vsync_line_first_crossing:
  assumes "0 \<le> CRT_HRES K" and "0 \<le> line" and "(line + 1) * CRT_HRES K \<le> int (length sig)"
  shows "vsync_line K sig line 0 0 =
     Inr (case first_crossing K sig line of Some j \<Rightarrow> (True, j) | None \<Rightarrow> (False, CRT_HRES K))"
proof -
  have "0 \<le> line * CRT_HRES K" using assms by simp
  then have "\<forall>k. 0 \<le> k \<and> k < CRT_HRES K \<longrightarrow>
      0 \<le> line * CRT_HRES K + k \<and> line * CRT_HRES K + k < int (length sig)"
    using assms(3) by (auto simp: algebra_simps)
  from vsync_line_find [OF _ this, of 0] show ?thesis
    using assms(1) by (simp add: first_crossing_def running_sum_def max_def split: option.split)
qed


lemma vsync_scan_find:
  assumes "0 < CRT_HRES K" and "0 < CRT_VRES K" and "length sig = nat (CRT_INPUT_SIZE K)"
  shows "vsync_scan K sig vs i lj =
     Inr (case find (\<lambda>l. first_crossing K sig l \<noteq> None)
                 (map (\<lambda>i. POSMOD (vs + i) (CRT_VRES K)) [i .. VSYNC_WINDOW - 1]) of
            Some l \<Rightarrow> (case first_crossing K sig l of Some j \<Rightarrow> (l, j) | None \<Rightarrow> (l, CRT_HRES K))
          | None \<Rightarrow> (if i < VSYNC_WINDOW then (POSMOD (vs + (VSYNC_WINDOW - 1)) (CRT_VRES K), CRT_HRES K) else lj))"
  using assms
proof (induction K sig vs i lj rule: vsync_scan.induct)
  case (1 K sig vs i lj)
  show ?case
  proof (cases "i < VSYNC_WINDOW")
    case False
    then show ?thesis by (subst vsync_scan.simps) simp
  next
    case True
    let ?l = "POSMOD (vs + i) (CRT_VRES K)"
    have lr: "0 \<le> ?l" "?l < CRT_VRES K"
      using POSMOD_range [OF "1.prems"(2)] by simp_all
    have "(?l + 1) * CRT_HRES K \<le> CRT_VRES K * CRT_HRES K"
      using lr "1.prems"(1) by (intro mult_right_mono) simp_all
    then have fit: "(?l + 1) * CRT_HRES K \<le> int (length sig)"
      using "1.prems" by (simp add: CRT_INPUT_SIZE_def mult.commute)
    have vl: "vsync_line K sig ?l 0 0 =
        Inr (case first_crossing K sig ?l of Some j \<Rightarrow> (True, j) | None \<Rightarrow> (False, CRT_HRES K))"
      using "1.prems"(1) lr(1) fit by (intro vsync_line_first_crossing) simp_all
    have u: "[i .. VSYNC_WINDOW - 1] = i # [i + 1 .. VSYNC_WINDOW - 1]"
      using True by (simp add: upto_rec1)
    show ?thesis
    proof (cases "first_crossing K sig ?l")
      case (Some j)
      then show ?thesis
        using True vl by (subst vsync_scan.simps) (simp add: u)
    next
      case None
      have "vsync_scan K sig vs i lj = vsync_scan K sig vs (i + 1) (?l, CRT_HRES K)"
        using True vl None by (subst vsync_scan.simps) simp
      moreover have "vsync_scan K sig vs (i + 1) (?l, CRT_HRES K) =
         Inr (case find (\<lambda>l. first_crossing K sig l \<noteq> None)
                 (map (\<lambda>i. POSMOD (vs + i) (CRT_VRES K)) [i + 1 .. VSYNC_WINDOW - 1]) of
            Some l \<Rightarrow> (case first_crossing K sig l of Some j \<Rightarrow> (l, j) | None \<Rightarrow> (l, CRT_HRES K))
          | None \<Rightarrow> (if i + 1 < VSYNC_WINDOW then (POSMOD (vs + (VSYNC_WINDOW - 1)) (CRT_VRES K), CRT_HRES K)
                     else (?l, CRT_HRES K)))"
        by (rule "1.IH" [OF True refl, of "(False, CRT_HRES K)" False "CRT_HRES K"])
          (use vl None "1.prems" in simp_all)
      moreover have "i + 1 < VSYNC_WINDOW \<or> i = VSYNC_WINDOW - 1"
        using True by auto
      ultimately show ?thesis
        using None True by (auto simp: u split: option.split)
    qed
  qed
qed

lemma vsync_window_snoc:
  "vsync_window K vs =
     map (\<lambda>i. POSMOD (vs + i) (CRT_VRES K)) [- VSYNC_WINDOW .. VSYNC_WINDOW - 1 - 1]
       @ [POSMOD (vs + (VSYNC_WINDOW - 1)) (CRT_VRES K)]"
proof -
  have "[- VSYNC_WINDOW .. VSYNC_WINDOW - 1] = [- VSYNC_WINDOW .. VSYNC_WINDOW - 1 - 1] @ [VSYNC_WINDOW - 1]"
    by (rule upto_rec2) (simp add: VSYNC_WINDOW_def)
  then show ?thesis
    unfolding vsync_window_def by (simp only: map_append list.map)
qed

lemma last_vsync_window: "last (vsync_window K vs) = POSMOD (vs + (VSYNC_WINDOW - 1)) (CRT_VRES K)"
  unfolding vsync_window_snoc by (rule last_snoc)

lemma find_vsync_spec:
  assumes "0 < CRT_HRES K" and "0 < CRT_VRES K" and "length sig = nat (CRT_INPUT_SIZE K)"
  shows "find_vsync K sig vs = Inr (spec_vsync K sig vs)"
proof -
  have "- VSYNC_WINDOW < VSYNC_WINDOW" by (simp add: VSYNC_WINDOW_def)
  then show ?thesis
    unfolding find_vsync_def vsync_scan_find [OF assms] spec_vsync_def last_vsync_window
    by (simp add: vsync_window_def)
qed

lemma field_of_spec:
  assumes "0 < CRT_HRES K"
  shows "field_of K (snd (spec_vsync K sig vs)) = vsync_field K sig vs"
proof -
  have "CRT_HRES K sdiv 2 < CRT_HRES K"
    using assms by (simp add: signed_divide_int_def sgn_if)
  then show ?thesis
    by (simp add: field_of_def spec_vsync_def vsync_field_def split: option.splits)
qed

text \<open>
  C3 (as the code has it). On a working copy of the declared size, the search scans the
  sixteen lines \<open>vsync - 8, \<dots>, vsync + 7\<close> (modulo \<^verbatim>\<open>CRT_VRES\<close>), sums each line's samples
  from the left starting at 0, and stops at the first line and sample where the sum is at or
  below \<open>100 * SYNC_LEVEL\<close>; with no crossing in the window it ends on the last line
  scanned, with sample index \<^verbatim>\<open>CRT_HRES\<close>. The parity is 1 when the index it stopped at is
  above \<^verbatim>\<open>CRT_HRES / 2\<close>, which includes the case of no crossing at all.
\<close>

theorem vsync_acquisition:
  assumes "0 < CRT_HRES K" and "0 < CRT_VRES K" and "length sig = nat (CRT_INPUT_SIZE K)"
  shows "find_vsync K sig vs = Inr (spec_vsync K sig vs) \<and>
         field_of K (snd (spec_vsync K sig vs)) = vsync_field K sig vs"
  using find_vsync_spec [OF assms] field_of_spec [OF assms(1)] by simp

theorem vsync_acquisition_witness:
  "find_vsync K_ntsc (replicate (nat (CRT_INPUT_SIZE K_ntsc)) 0) 0
     = Inr (spec_vsync K_ntsc (replicate (nat (CRT_INPUT_SIZE K_ntsc)) 0) 0) \<and>
   field_of K_ntsc (snd (spec_vsync K_ntsc (replicate (nat (CRT_INPUT_SIZE K_ntsc)) 0) 0))
     = vsync_field K_ntsc (replicate (nat (CRT_INPUT_SIZE K_ntsc)) 0) 0"
  by (rule vsync_acquisition) (simp_all add: K_ntsc_def)

lemma quiet_line:
  assumes "0 \<le> line" and "(line + 1) * CRT_HRES K \<le> int n"
  shows "first_crossing K (replicate n 0) line = None"
proof -
  have "\<not> crossing K (replicate n 0) line j" if "j \<in> set [0 .. CRT_HRES K - 1]" for j
  proof -
    have "sint (replicate n (0 :: schar) ! nat (line * CRT_HRES K + k)) = 0" if "k \<in> set [0 .. j]" for k
    proof -
      have "0 \<le> line * CRT_HRES K" using assms(1) \<open>j \<in> set [0 .. CRT_HRES K - 1]\<close> by simp
      moreover have "line * CRT_HRES K + k < int n"
        using assms(2) that \<open>j \<in> set [0 .. CRT_HRES K - 1]\<close> by (simp add: algebra_simps)
      ultimately have "nat (line * CRT_HRES K + k) < n" using that by (simp add: nat_less_iff)
      then show ?thesis by simp
    qed
    then have "map (\<lambda>k. sint (replicate n (0 :: schar) ! nat (line * CRT_HRES K + k))) [0 .. j]
        = map (\<lambda>k. 0) [0 .. j]"
      by (intro map_cong) simp_all
    then have "running_sum K (replicate n 0) line j = sum_list (map (\<lambda>k. 0) [0 .. j])"
      unfolding running_sum_def by (rule arg_cong)
    then have "running_sum K (replicate n 0) line j = 0"
      by simp
    then show ?thesis by (simp add: crossing_def SYNC_LEVEL_def)
  qed
  then show ?thesis
    by (simp add: first_crossing_def find_None_iff)
qed

lemma quiet_window:
  assumes "0 < CRT_HRES K" and "0 < CRT_VRES K"
  shows "find (\<lambda>l. first_crossing K (replicate (nat (CRT_INPUT_SIZE K)) 0) l \<noteq> None) (vsync_window K vs) = None"
proof -
  have "first_crossing K (replicate (nat (CRT_INPUT_SIZE K)) 0) (POSMOD x (CRT_VRES K)) = None" for x
  proof (rule quiet_line)
    let ?l = "POSMOD x (CRT_VRES K)"
    show "0 \<le> ?l" using POSMOD_range [OF assms(2)] by simp
    have "?l + 1 \<le> CRT_VRES K" using POSMOD_range [OF assms(2), of x] by simp
    then have "(?l + 1) * CRT_HRES K \<le> CRT_VRES K * CRT_HRES K"
      using assms(1) by (intro mult_right_mono) simp_all
    then show "(?l + 1) * CRT_HRES K \<le> int (nat (CRT_INPUT_SIZE K))"
      by (simp add: CRT_INPUT_SIZE_def mult.commute)
  qed
  then show ?thesis
    by (simp add: find_None_iff vsync_window_def)
qed

text \<open>
  C3 (as the spec states it) fails: on a silent signal no line of the window crosses the
  threshold, the search ends on line 7 with index 910, and the parity is 1 although no
  crossing occurred in the second half of any line.
\<close>

theorem vsync_field_counterexample:
  "find_vsync K_ntsc (replicate (nat (CRT_INPUT_SIZE K_ntsc)) 0) 0 = Inr (7, 910) \<and>
   field_of K_ntsc 910 = 1 \<and>
   find (\<lambda>l. first_crossing K_ntsc (replicate (nat (CRT_INPUT_SIZE K_ntsc)) 0) l \<noteq> None)
     (vsync_window K_ntsc 0) = None"
proof -
  have K: "0 < CRT_HRES K_ntsc" "0 < CRT_VRES K_ntsc"
    by (simp_all add: K_ntsc_def)
  have l: "last (vsync_window K_ntsc 0) = 7"
    by (simp add: last_vsync_window VSYNC_WINDOW_def POSMOD_mod K) (simp add: K_ntsc_def)
  have "find_vsync K_ntsc (replicate (nat (CRT_INPUT_SIZE K_ntsc)) 0) 0 = Inr (7, 910)"
    unfolding find_vsync_spec [OF K length_replicate] spec_vsync_def quiet_window [OF K] l
    by (simp add: K_ntsc_def)
  moreover have "field_of K_ntsc 910 = 1"
    by (simp add: field_of_def K_ntsc_def)
  ultimately show ?thesis
    using quiet_window [OF K] by simp
qed

section \<open>The decoder as a whole\<close>

lemma draw_line_frame:
  assumes "draw_line K max_e field bright line D = Inr D'"
  shows "analog (ds_ctx D') = analog (ds_ctx D) \<and> inp (ds_ctx D') = inp (ds_ctx D) \<and>
         vsync (ds_ctx D') = vsync (ds_ctx D) \<and> outw (ds_ctx D') = outw (ds_ctx D) \<and>
         outh (ds_ctx D') = outh (ds_ctx D)"
  using assms
  by (auto simp: draw_line_def Let_def split: if_splits sum.splits prod.splits)

lemma draw_lines_frame:
  assumes "foldM (draw_line K max_e field bright) ls D = Inr D'"
  shows "analog (ds_ctx D') = analog (ds_ctx D) \<and> inp (ds_ctx D') = inp (ds_ctx D) \<and>
         vsync (ds_ctx D') = vsync (ds_ctx D) \<and> outw (ds_ctx D') = outw (ds_ctx D) \<and>
         outh (ds_ctx D') = outh (ds_ctx D)"
  by (rule foldM_invariant [OF assms, where P = "\<lambda>E. analog (ds_ctx E) = analog (ds_ctx D) \<and> inp (ds_ctx E) = inp (ds_ctx D) \<and>
         vsync (ds_ctx E) = vsync (ds_ctx D) \<and> outw (ds_ctx E) = outw (ds_ctx D) \<and>
         outh (ds_ctx E) = outh (ds_ctx D)"]) (auto dest: draw_line_frame)

text \<open>
  C8. A call of \<^verbatim>\<open>crt_draw\<close> that returns leaves the analog buffer as it found it, for every
  context, static state and noise level; the noisy samples go to \<^verbatim>\<open>inp\<close>.
\<close>

theorem crt_draw_keeps_analog:
  assumes "crt_draw K G v noise = Inr (G', v')"
  shows "analog v' = analog v"
proof -
  from assms obtain D0 D max_e field bright where
    f: "foldM (draw_line K max_e field bright) [CRT_TOP K .. CRT_BOT K - 1] D0 = Inr D" and
    a: "analog (ds_ctx D0) = analog v" and v': "v' = ds_ctx D"
    by (auto simp: crt_draw_def Let_def split: sum.splits prod.splits)
  from draw_lines_frame [OF f] a v' show ?thesis by simp
qed

lemma tiny_pipeline:
  "case crt_init K_tiny G_boot 2 2 [0, 0, 0, 0] of Inl e \<Rightarrow> False
   | Inr (G, v) \<Rightarrow>
       (case crt_2ntsc K_tiny G v tiny_src of Inl e \<Rightarrow> False
        | Inr (G1, v1, s1) \<Rightarrow>
            (case crt_draw K_tiny G1 v1 0 of Inl e \<Rightarrow> False
             | Inr (G2, v2) \<Rightarrow> hsync v2 = 16 \<and> vsync v2 = 7))"
  by code_simp

theorem crt_draw_keeps_analog_witness:
  "\<exists>G v G1 v1 s1 G2 v2.
     crt_init K_tiny G_boot 2 2 [0, 0, 0, 0] = Inr (G, v) \<and>
     crt_2ntsc K_tiny G v tiny_src = Inr (G1, v1, s1) \<and>
     crt_draw K_tiny G1 v1 0 = Inr (G2, v2) \<and> analog v2 = analog v1"
proof -
  obtain G v where i: "crt_init K_tiny G_boot 2 2 [0, 0, 0, 0] = Inr (G, v)"
    using tiny_pipeline by (cases "crt_init K_tiny G_boot 2 2 [0, 0, 0, 0]") auto
  obtain G1 v1 s1 where e: "crt_2ntsc K_tiny G v tiny_src = Inr (G1, v1, s1)"
    using tiny_pipeline i by (cases "crt_2ntsc K_tiny G v tiny_src") auto
  obtain G2 v2 where d: "crt_draw K_tiny G1 v1 0 = Inr (G2, v2)"
    using tiny_pipeline i e by (cases "crt_draw K_tiny G1 v1 0") auto
  from crt_draw_keeps_analog [OF d] i e d show ?thesis
    by blast
qed

lemma noisy_sample_quiet: "word_of_int (noisy_sample r 0 a) = quiet a"
proof -
  have "sint a < 2 ^ (8 - 1)"
    using sint_lt [of a] by simp
  then show ?thesis
    by (simp add: noisy_sample_def quiet_def)
qed

lemma noise_fold_quiet:
  "n \<le> length an \<Longrightarrow> n \<le> length ws \<Longrightarrow>
   \<exists>r'. foldM (noise_step 0 an) [0 .. int n - 1] (r, ws) =
     Inr (r', map quiet (take n an) @ drop n ws)"
proof (induction n)
  case 0
  then show ?case by simp
next
  case (Suc n)
  then obtain r1 where
    f: "foldM (noise_step 0 an) [0 .. int n - 1] (r, ws) =
      Inr (r1, map quiet (take n an) @ drop n ws)"
    by auto
  let ?f = "quiet"
  let ?ws1 = "map ?f (take n an) @ drop n ws"
  have l: "n < length ?ws1" using Suc.prems by simp
  have st: "noise_step 0 an (int n) (r1, ?ws1) = Inr (rn_next r1, ?ws1[n := ?f (an ! n)])"
    using Suc.prems l by (simp only: noise_step_Inr noisy_sample_quiet)
  have "?ws1[n := ?f (an ! n)] = map ?f (take (Suc n) an) @ drop (Suc n) ws"
    using Suc.prems by (simp add: list_update_append take_Suc_conv_app_nth upd_conv_take_nth_drop)
  then have "foldM (noise_step 0 an) [0 .. int (Suc n) - 1] (r, ws) =
      Inr (rn_next r1, map ?f (take (Suc n) an) @ drop (Suc n) ws)"
    by (simp only: upto_snoc foldM_append f) (simp add: st)
  then show ?case by blast
qed

lemma add_noise_quiet:
  assumes "length an = nat (CRT_INPUT_SIZE K)" and "length ws = nat (CRT_INPUT_SIZE K)"
  shows "\<exists>r'. add_noise K 0 an (r, ws) = Inr (r', map quiet an)"
proof (cases "0 \<le> CRT_INPUT_SIZE K")
  case True
  let ?n = "nat (CRT_INPUT_SIZE K)"
  have e: "[0 .. CRT_INPUT_SIZE K - 1] = [0 .. int ?n - 1]"
    using True by simp
  have "?n \<le> length an" and "?n \<le> length ws"
    using assms by simp_all
  from noise_fold_quiet [OF this, of r] show ?thesis
    unfolding add_noise_def e using assms by simp
next
  case False
  then have "[0 .. CRT_INPUT_SIZE K - 1] = []" by simp
  then show ?thesis
    using False assms by (simp add: add_noise_def)
qed

lemma add_noise_silent:
  "\<exists>r'. add_noise K 0 (silent K) (r, silent K) = Inr (r', silent K)"
proof -
  have "quiet 0 = 0"
    by (simp add: quiet_def)
  then have "map quiet (silent K) = silent K"
    by (simp add: silent_def)
  moreover have "length (silent K) = nat (CRT_INPUT_SIZE K)"
    by (simp add: silent_def)
  ultimately show ?thesis
    using add_noise_quiet [of "silent K" K "silent K" r] by simp
qed

lemma find_vsync_silent:
  assumes "0 < CRT_HRES K" and "0 < CRT_VRES K"
  shows "find_vsync K (silent K) vs = Inr (POSMOD (vs + 7) (CRT_VRES K), CRT_HRES K)"
  unfolding silent_def find_vsync_spec [OF assms length_replicate] spec_vsync_def
    quiet_window [OF assms] last_vsync_window
  by (simp add: VSYNC_WINDOW_def)

lemma hsync_scan_out_of_bounds:
  assumes "int (length sig) \<le> base + (SYNC_BEG K - HSYNC_WINDOW)"
  shows "hsync_scan K sig base (- HSYNC_WINDOW) 0 = Inl OutOfBounds"
  using assms by (subst hsync_scan.simps) (simp add: rd_def HSYNC_WINDOW_def)

lemma K_ntsc_fields:
  "CRT_CB_FREQ K_ntsc = 4" "CRT_HRES K_ntsc = 910" "CRT_VRES K_ntsc = 262"
  "CRT_TOP K_ntsc = 21" "CRT_BOT K_ntsc = 261" "CRT_LINES K_ntsc = 240"
  by (simp_all add: K_ntsc_def)


lemma v_bad_init:
  "crt_init K_ntsc G_boot 1 1 [0] = Inr (G, v) \<Longrightarrow> v\<lparr> hsync := 900, vsync := 233 \<rparr> = v_bad"
  by (auto simp: crt_init_def Let_def crt_reset_def crt_resize_def v_bad_def silent_def split: sum.splits)

text \<open>
  C10. The code wraps the line index and the horizontal offset with \<^verbatim>\<open>POSMOD\<close>, but the
  reads that follow are at \<^verbatim>\<open>ln + hsync + SYNC_BEG + i\<close>, \<^verbatim>\<open>ln + (hsync & ~3) + i\<close> and
  \<^verbatim>\<open>pos + i\<close>, which are not wrapped. With the sync state at line 233 and offset 900 and a
  silent signal, the first scan line decoded is line 261, the last of the buffer, and the
  first sample of the horizontal sync window lies at index 238423 of 238420.
\<close>

theorem crt_draw_reads_out_of_bounds:
  "crt_draw K_ntsc G v_bad 0 = Inl OutOfBounds"
proof -
  have K: "0 < CRT_HRES K_ntsc" "0 < CRT_VRES K_ntsc"
    by (simp_all add: K_ntsc_def)
  obtain r' where n: "add_noise K_ntsc 0 (silent K_ntsc) (rn G, silent K_ntsc) = Inr (r', silent K_ntsc)"
    using add_noise_silent by blast
  have vs: "find_vsync K_ntsc (silent K_ntsc) 233 = Inr (240, 910)"
    unfolding find_vsync_silent [OF K] by (simp add: POSMOD_mod K) (simp add: K_ntsc_def)
  have len: "int (length (silent K_ntsc)) = 238420"
    by (simp add: silent_def CRT_INPUT_SIZE_def K_ntsc_def)
  have sb: "SYNC_BEG K_ntsc = 21"
    by (simp add: SYNC_BEG_def ns2pos_def FP_ns_def LINE_ns_def SYNC_ns_def BW_ns_def CB_ns_def
        BP_ns_def AV_ns_def K_ntsc_def)
  have hs: "hsync_scan K_ntsc (silent K_ntsc) 238410 (- HSYNC_WINDOW) 0 = Inl OutOfBounds"
    by (rule hsync_scan_out_of_bounds) (simp add: len sb HSYNC_WINDOW_def)
  have pm: "POSMOD 261 262 = 261"
    by (simp add: POSMOD_mod)
  have dl: "draw_line K_ntsc max_e f bright 21
      \<lparr> ds_ctx = v_bad\<lparr> inp := silent K_ntsc, vsync := 240 \<rparr>, ds_st = G', ds_ccref = c,
        ds_prev_e = e, ds_yiq = ys \<rparr> = Inl OutOfBounds" if "f < 1" for max_e f bright G' c e ys
    unfolding draw_line_def using that
    by (simp add: Let_def v_bad_def pm hs K_ntsc_fields signed_divide_int_def)
  have sel: "analog v_bad = silent K_ntsc" "inp v_bad = silent K_ntsc" "vsync v_bad = 233"
    "outh v_bad = 1"
    by (simp_all add: v_bad_def)
  show ?thesis
    unfolding crt_draw_def
    by (simp add: Let_def sel n vs dl K_ntsc_fields field_of_def signed_divide_int_def)
qed

section \<open>Reproducibility of encode followed by decode\<close>

lemma foldM_rel:
  assumes "R s s'" and "\<And>x t t'. x \<in> set xs \<Longrightarrow> R t t' \<Longrightarrow> rel_sum (=) R (f x t) (f' x t')"
  shows "rel_sum (=) R (foldM f xs s) (foldM f' xs s')"
  using assms
proof (induction xs arbitrary: s s')
  case Nil
  then show ?case by simp
next
  case (Cons x xs)
  have st: "rel_sum (=) R (f x s) (f' x s')"
    by (rule Cons.prems(2)) (simp_all add: Cons.prems(1))
  show ?case
  proof (cases "f x s")
    case (Inl e)
    then show ?thesis using st by (cases "f' x s'") simp_all
  next
    case (Inr t)
    then obtain t' where t': "f' x s' = Inr t'" and R: "R t t'"
      using st by (cases "f' x s'") simp_all
    have "rel_sum (=) R (foldM f xs t) (foldM f' xs t')"
      by (rule Cons.IH [OF R]) (rule Cons.prems(2), simp_all)
    then show ?thesis using Inr t' by simp
  qed
qed

lemma same_config_refl: "same_config G G"
  by (simp add: same_config_def eq_config_def)

lemma same_config_trans: "same_config G G' \<Longrightarrow> same_config G' G'' \<Longrightarrow> same_config G G''"
  by (simp add: same_config_def eq_config_def)

lemma same_config_sym: "same_config G G' \<Longrightarrow> same_config G' G"
  by (simp add: same_config_def eq_config_def)

lemma encode_sample_rel:
  assumes "same_iir G G'"
  shows "rel_sum (=) (\<lambda>a b. same_iir (fst a) (fst b) \<and> snd a = snd b)
           (encode_sample K v s y syA syB x (G, an)) (encode_sample K v s y syA syB x (G', an))"
  using assms
  by (auto simp: encode_sample_def Let_def same_iir_def same_config_def iirf_def
      split: sum.splits prod.splits)

lemma encode_row_rel:
  assumes "same_config G G'"
  shows "rel_sum (=) (\<lambda>a b. same_config (fst a) (fst b) \<and> snd a = snd b)
           (encode_row K v s y (G, an)) (encode_row K v s y (G', an))"
proof -
  let ?r = "\<lambda>G. G\<lparr> iirY := reset_iir (iirY G), iirI := reset_iir (iirI G), iirQ := reset_iir (iirQ G) \<rparr>"
  have 0: "same_iir (?r G) (?r G')"
    using assms by (simp add: same_iir_def same_config_def reset_iir_def)
  have "rel_sum (=) (\<lambda>a b. same_iir (fst a) (fst b) \<and> snd a = snd b)
     (foldM (encode_sample K v s y syA syB) xs (?r G, an))
     (foldM (encode_sample K v s y syA syB) xs (?r G', an))" for syA syB xs
    by (rule foldM_rel) (use 0 in \<open>auto intro: encode_sample_rel [of _ _ K v s y syA syB _ _, simplified]\<close>)
  then have "rel_sum (=) (\<lambda>a b. same_iir (fst a) (fst b) \<and> snd a = snd b)
           (encode_row K v s y (G, an)) (encode_row K v s y (G', an))"
    by (simp add: encode_row_def Let_def)
  then show ?thesis
    by (rule sum.rel_mono_strong) (auto simp: same_iir_def)
qed

lemma crt_2ntsc_rel:
  assumes "same_config G G'"
  shows "rel_sum (=) (\<lambda>a b. same_config (fst a) (fst b) \<and> snd a = snd b)
           (crt_2ntsc K G v s) (crt_2ntsc K G' v s)"
proof -
  have "rel_sum (=) (\<lambda>a b. same_config (fst a) (fst b) \<and> snd a = snd b)
     (foldM (encode_row K v s') xs (G, an)) (foldM (encode_row K v s') xs (G', an))" for s' xs an
    by (rule foldM_rel) (use assms in \<open>auto intro: encode_row_rel [of _ _ K v s', simplified]\<close>)
  note r = this
  show ?thesis
    unfolding crt_2ntsc_def Let_def
  proof (cases "foldM (sync_line K (s\<lparr>s_field := s_field s AND 1\<rparr>)) [0 .. CRT_VRES K - 1] (analog v)")
    case (Inl e)
    then show "rel_sum (=) (\<lambda>a b. same_config (fst a) (fst b) \<and> snd a = snd b)
      (case foldM (sync_line K (s\<lparr>s_field := s_field s AND 1\<rparr>)) [0..CRT_VRES K - 1] (analog v) of
        Inl e \<Rightarrow> Inl e
      | Inr an \<Rightarrow> (case foldM (encode_row K v (s\<lparr>s_field := s_field s AND 1\<rparr>)) [0..desth K - 1] (G, an) of
           Inl e \<Rightarrow> Inl e | Inr (G', an') \<Rightarrow> Inr (G', v\<lparr>analog := an'\<rparr>, s\<lparr>s_field := s_field s AND 1\<rparr>)))
      (case foldM (sync_line K (s\<lparr>s_field := s_field s AND 1\<rparr>)) [0..CRT_VRES K - 1] (analog v) of
        Inl e \<Rightarrow> Inl e
      | Inr an \<Rightarrow> (case foldM (encode_row K v (s\<lparr>s_field := s_field s AND 1\<rparr>)) [0..desth K - 1] (G', an) of
           Inl e \<Rightarrow> Inl e | Inr (G', an') \<Rightarrow> Inr (G', v\<lparr>analog := an'\<rparr>, s\<lparr>s_field := s_field s AND 1\<rparr>)))"
      by simp
  next
    case (Inr an)
    from r [of "s\<lparr>s_field := s_field s AND 1\<rparr>" "[0 .. desth K - 1]" an]
    show "rel_sum (=) (\<lambda>a b. same_config (fst a) (fst b) \<and> snd a = snd b)
      (case foldM (sync_line K (s\<lparr>s_field := s_field s AND 1\<rparr>)) [0..CRT_VRES K - 1] (analog v) of
        Inl e \<Rightarrow> Inl e
      | Inr an \<Rightarrow> (case foldM (encode_row K v (s\<lparr>s_field := s_field s AND 1\<rparr>)) [0..desth K - 1] (G, an) of
           Inl e \<Rightarrow> Inl e | Inr (G', an') \<Rightarrow> Inr (G', v\<lparr>analog := an'\<rparr>, s\<lparr>s_field := s_field s AND 1\<rparr>)))
      (case foldM (sync_line K (s\<lparr>s_field := s_field s AND 1\<rparr>)) [0..CRT_VRES K - 1] (analog v) of
        Inl e \<Rightarrow> Inl e
      | Inr an \<Rightarrow> (case foldM (encode_row K v (s\<lparr>s_field := s_field s AND 1\<rparr>)) [0..desth K - 1] (G', an) of
           Inl e \<Rightarrow> Inl e | Inr (G', an') \<Rightarrow> Inr (G', v\<lparr>analog := an'\<rparr>, s\<lparr>s_field := s_field s AND 1\<rparr>)))"
      unfolding Inr
      by (cases "foldM (encode_row K v (s\<lparr>s_field := s_field s AND 1\<rparr>)) [0..desth K - 1] (G, an)";
          cases "foldM (encode_row K v (s\<lparr>s_field := s_field s AND 1\<rparr>)) [0..desth K - 1] (G', an)")
        (auto split: prod.splits)
  qed
qed

lemma rel_bind:
  assumes "rel_sum (=) R a a'" and "\<And>x x'. R x x' \<Longrightarrow> rel_sum (=) S (k x) (k' x')"
  shows "rel_sum (=) S (case a of Inl e \<Rightarrow> Inl e | Inr x \<Rightarrow> k x) (case a' of Inl e \<Rightarrow> Inl e | Inr x \<Rightarrow> k' x)"
  using assms by (cases a; cases a') simp_all

lemma rel_bind_same:
  assumes "\<And>x. rel_sum (=) S (k x) (k' x)"
  shows "rel_sum (=) S (case a of Inl e \<Rightarrow> Inl e | Inr x \<Rightarrow> k x) (case a of Inl e \<Rightarrow> Inl e | Inr x \<Rightarrow> k' x)"
  using assms by (cases a) simp_all

lemma rel_if:
  assumes "c \<Longrightarrow> R a a'" and "\<not> c \<Longrightarrow> R b b'"
  shows "R (if c then a else b) (if c then a' else b')"
  using assms by simp

lemma noise_step_rel:
  "rel_sum (=) (\<lambda>a b. snd a = snd b) (noise_step 0 an i (r, ws)) (noise_step 0 an i (r', ws))"
  by (simp add: noise_step_def Let_def noisy_sample_quiet split: sum.splits)

lemma add_noise_rel:
  "rel_sum (=) (\<lambda>a b. snd a = snd b) (add_noise K 0 an (r, ws)) (add_noise K 0 an (r', ws))"
  unfolding add_noise_def
  by (rule foldM_rel) (auto intro: noise_step_rel [of an _ _ _ _, simplified])

lemma reset_eq_config: "eq_config f f' \<Longrightarrow> reset_eq f = reset_eq f'"
  by (cases f; cases f') (simp add: reset_eq_def eq_config_def)

lemma reset_eqs_rel: "same_config G G' \<Longrightarrow> same_eq (reset_eqs G) (reset_eqs G')"
  by (simp add: same_eq_def same_config_def reset_eqs_def reset_eq_config)
    (simp add: eq_config_def reset_eq_def)

lemma demod_step_rel:
  assumes "same_eq G G'"
  shows "rel_sum (=) (\<lambda>a b. same_eq (fst a) (fst b) \<and> snd a = snd b)
           (demod_step b w sig pos i (G, ys)) (demod_step b w sig pos i (G', ys))"
  using assms
  by (auto simp: demod_step_def Let_def same_eq_def same_config_def eq_config_def eqf_keeps
      split: sum.splits)

lemma demod_rel:
  assumes "same_config G G'"
  shows "rel_sum (=) (\<lambda>a b. same_eq (fst a) (fst b) \<and> snd a = snd b)
           (foldM (demod_step b w sig pos) xs (reset_eqs G, ys))
           (foldM (demod_step b w sig pos) xs (reset_eqs G', ys))"
  by (rule foldM_rel)
    (use reset_eqs_rel [OF assms] in \<open>auto intro: demod_step_rel [of _ _ b w sig pos _ _, simplified]\<close>)

lemma draw_line_rel:
  assumes "same_draw D D'"
  shows "rel_sum (=) same_draw (draw_line K m f b l D) (draw_line K m f b l D')"
proof -
  have c: "ds_ctx D' = ds_ctx D" "ds_ccref D' = ds_ccref D" "ds_prev_e D' = ds_prev_e D"
    "ds_yiq D' = ds_yiq D" and s: "same_config (ds_st D) (ds_st D')"
    using assms by (simp_all add: same_draw_def)
  show ?thesis
    unfolding draw_line_def Let_def c
    apply (rule rel_if)
     apply (simp add: assms)
    apply (rule rel_bind_same)+
    apply (rule rel_bind [OF demod_rel [OF s]])
    apply (clarsimp simp: same_eq_def split del: if_split)
    apply (rule rel_bind_same)+
    apply (simp add: same_draw_def c)
    done
qed

lemma crt_draw_rel:
  assumes "same_config G G'"
  shows "rel_sum (=) (\<lambda>a b. same_config (fst a) (fst b) \<and> snd a = snd b)
           (crt_draw K G v 0) (crt_draw K G' v 0)"
  unfolding crt_draw_def Let_def
  apply (rule rel_bind [OF add_noise_rel])
  apply (clarsimp split del: if_split)
  apply (rule rel_bind_same)
  apply (clarsimp split del: if_split)
  apply (rule rel_bind [where R = same_draw])
   apply (rule foldM_rel)
    apply (simp add: same_draw_def same_config_def assms [unfolded same_config_def])
   apply (erule draw_line_rel)
  apply (simp add: same_draw_def)
  done

lemma encode_decode_rel:
  assumes "same_config G G'"
  shows "rel_sum (=) (\<lambda>a b. same_config (fst a) (fst b) \<and> snd a = snd b)
           (encode_decode K G v s 0) (encode_decode K G' v s 0)"
  unfolding encode_decode_def
  apply (rule rel_bind [OF crt_2ntsc_rel [OF assms]])
  apply (clarsimp split del: if_split)
  apply (erule crt_draw_rel)
  done

lemma rel_sum_snd:
  "rel_sum (=) (\<lambda>a b. P (fst a) (fst b) \<and> snd a = snd b) r r' \<Longrightarrow> map_sum id snd r = map_sum id snd r'"
  by (cases r; cases r') simp_all

lemma encode_sample_config:
  "encode_sample K v s y syA syB x st = Inr st' \<Longrightarrow> same_config G (fst st) \<Longrightarrow> same_config G (fst st')"
  by (auto simp: encode_sample_def Let_def same_config_def iirf_def split: sum.splits prod.splits)

lemma encode_row_config:
  assumes "encode_row K v s y st = Inr st'" and "same_config G (fst st)"
  shows "same_config G (fst st')"
proof -
  let ?G = "(fst st)\<lparr> iirY := reset_iir (iirY (fst st)), iirI := reset_iir (iirI (fst st)),
      iirQ := reset_iir (iirQ (fst st)) \<rparr>"
  from assms(1) obtain syA syB where
    f: "foldM (encode_sample K v s y syA syB) [0 .. destw K - 1] (?G, snd st) = Inr st'"
    by (auto simp: encode_row_def Let_def)
  have "same_config G (fst (?G, snd st))"
    using assms(2) by (simp add: same_config_def reset_iir_def)
  with f show ?thesis
    by (rule foldM_invariant [where P = "\<lambda>t. same_config G (fst t)"]) (rule encode_sample_config)
qed

lemma crt_2ntsc_config:
  assumes "crt_2ntsc K G v s = Inr (G1, v1, s1)"
  shows "same_config G G1"
proof -
  from assms obtain s' an an' where
    f: "foldM (encode_row K v s') [0 .. desth K - 1] (G, an) = Inr (G1, an')"
    by (auto simp: crt_2ntsc_def Let_def split: sum.splits prod.splits)
  have "same_config G (fst (G1, an'))"
    by (rule foldM_invariant [OF f, where P = "\<lambda>t. same_config G (fst t)"])
      (simp_all add: same_config_refl encode_row_config)
  then show ?thesis by simp
qed

lemma demod_step_config:
  "demod_step b w sig pos i st = Inr st' \<Longrightarrow> same_config G (fst st) \<Longrightarrow> same_config G (fst st')"
  by (auto simp: demod_step_def Let_def same_config_def eq_config_def eqf_keeps split: sum.splits)

lemma draw_line_config:
  assumes "draw_line K m f b l D = Inr D'" and "same_config G (ds_st D)"
  shows "same_config G (ds_st D')"
proof (cases "ds_st D' = ds_st D")
  case True
  then show ?thesis using assms(2) by simp
next
  case False
  with assms(1) obtain w sig pos xs ys st' where
    f: "foldM (demod_step b w sig pos) xs (reset_eqs (ds_st D), ys) = Inr st'" and
    d: "ds_st D' = fst st'"
    by (auto simp: draw_line_def Let_def split: if_splits sum.splits prod.splits)
  have "same_config G (fst (reset_eqs (ds_st D), ys))"
    using assms(2) by (simp add: same_config_def eq_config_def reset_eqs_def reset_eq_def)
  with f have "same_config G (fst st')"
    by (rule foldM_invariant [where P = "\<lambda>t. same_config G (fst t)"]) (rule demod_step_config)
  then show ?thesis using d by simp
qed

lemma crt_draw_config:
  assumes "crt_draw K G v noise = Inr (G1, v1)"
  shows "same_config G G1"
proof -
  from assms obtain m f b D0 D where
    f: "foldM (draw_line K m f b) [CRT_TOP K .. CRT_BOT K - 1] D0 = Inr D" and
    0: "same_config G (ds_st D0)" and 1: "G1 = ds_st D"
    by (auto simp: crt_draw_def Let_def same_config_def eq_config_def split: sum.splits prod.splits)
  from f 0 have "same_config G (ds_st D)"
    by (rule foldM_invariant [where P = "\<lambda>E. same_config G (ds_st E)"]) (rule draw_line_config)
  then show ?thesis using 1 by simp
qed

lemma encode_decode_config:
  assumes "encode_decode K G v s noise = Inr (G1, v1)"
  shows "same_config G G1"
proof -
  from assms obtain Ge ve se where e: "crt_2ntsc K G v s = Inr (Ge, ve, se)"
    and d: "crt_draw K Ge ve noise = Inr (G1, v1)"
    by (auto simp: encode_decode_def split: sum.splits prod.splits)
  from crt_2ntsc_config [OF e] crt_draw_config [OF d] show ?thesis
    by (rule same_config_trans)
qed

text \<open>
  C9. At noise level 0, encode followed by decode gives the same outcome (the same fault,
  or the same final context: output buffer, sync state and both sample buffers) from every
  static state with the same filter configuration, whatever \<^verbatim>\<open>rn\<close> and the filter histories
  hold. A run leaves the configuration as it was, so running again from the same context
  with the statics the first run left behind returns the same context.
\<close>

theorem encode_decode_reproducible:
  "(same_config G G' \<longrightarrow>
      map_sum id snd (encode_decode K G v s 0) = map_sum id snd (encode_decode K G' v s 0)) \<and>
   (encode_decode K G v s 0 = Inr (G1, v1) \<longrightarrow>
      same_config G G1 \<and> (\<exists>G2. encode_decode K G1 v s 0 = Inr (G2, v1)))"
proof (intro conjI impI)
  assume "same_config G G'"
  then show "map_sum id snd (encode_decode K G v s 0) = map_sum id snd (encode_decode K G' v s 0)"
    by (intro rel_sum_snd [where P = same_config] encode_decode_rel)
next
  assume r: "encode_decode K G v s 0 = Inr (G1, v1)"
  then show c: "same_config G G1" by (rule encode_decode_config)
  from rel_sum_snd [OF encode_decode_rel [OF c, of K v s]] r
  show "\<exists>G2. encode_decode K G1 v s 0 = Inr (G2, v1)"
    by (cases "encode_decode K G1 v s 0") auto
qed

theorem encode_decode_reproducible_witness:
  "\<exists>G v G1 v1 G2.
     crt_init K_tiny G_boot 2 2 [0, 0, 0, 0] = Inr (G, v) \<and>
     encode_decode K_tiny G v tiny_src 0 = Inr (G1, v1) \<and> same_config G G1 \<and>
     encode_decode K_tiny G1 v tiny_src 0 = Inr (G2, v1) \<and>
     same_config G (G\<lparr> rn := 7 \<rparr>) \<and>
     map_sum id snd (encode_decode K_tiny G v tiny_src 0)
       = map_sum id snd (encode_decode K_tiny (G\<lparr> rn := 7 \<rparr>) v tiny_src 0)"
proof -
  obtain G v where i: "crt_init K_tiny G_boot 2 2 [0, 0, 0, 0] = Inr (G, v)"
    using tiny_pipeline by (cases "crt_init K_tiny G_boot 2 2 [0, 0, 0, 0]") auto
  obtain Ge ve se where e: "crt_2ntsc K_tiny G v tiny_src = Inr (Ge, ve, se)"
    using tiny_pipeline i by (cases "crt_2ntsc K_tiny G v tiny_src") auto
  obtain G1 v1 where d: "crt_draw K_tiny Ge ve 0 = Inr (G1, v1)"
    using tiny_pipeline i e by (cases "crt_draw K_tiny Ge ve 0") auto
  have r: "encode_decode K_tiny G v tiny_src 0 = Inr (G1, v1)"
    by (simp add: encode_decode_def e d)
  have c: "same_config G (G\<lparr> rn := 7 \<rparr>)"
    by (simp add: same_config_def eq_config_def)
  from encode_decode_reproducible [of G "G\<lparr> rn := 7 \<rparr>" K_tiny v tiny_src G1 v1] r c i
  show ?thesis by blast
qed

section \<open>The samples assigned by the encoder\<close>

lemma foldM_kept:
  assumes "foldM f xs s = Inr s'" and "I S s"
    and "\<And>x T t t'. x \<in> set xs \<Longrightarrow> I T t \<Longrightarrow> f x t = Inr t' \<Longrightarrow> I (T \<union> w x) t'"
  shows "I (S \<union> (\<Union>x\<in>set xs. w x)) s'"
  using assms
proof (induction xs arbitrary: S s)
  case Nil
  then show ?case by simp
next
  case (Cons x xs)
  from Cons.prems(1) obtain t where t: "f x s = Inr t" and r: "foldM f xs t = Inr s'"
    by (auto split: sum.splits)
  have "I (S \<union> w x) t"
    by (rule Cons.prems(3) [OF _ Cons.prems(2) t]) simp
  then have "I ((S \<union> w x) \<union> (\<Union>x\<in>set xs. w x)) s'"
    by (rule Cons.IH [OF r]) (rule Cons.prems(3), simp_all)
  then show ?case by (simp add: Un_assoc)
qed

lemma foldM_agree:
  assumes "R S s s'"
    and "\<And>x T t t'. x \<in> set xs \<Longrightarrow> R T t t' \<Longrightarrow> rel_sum (=) (R (T \<union> w x)) (f x t) (f x t')"
  shows "rel_sum (=) (R (S \<union> (\<Union>x\<in>set xs. w x))) (foldM f xs s) (foldM f xs s')"
  using assms
proof (induction xs arbitrary: S s s')
  case Nil
  then show ?case by simp
next
  case (Cons x xs)
  have st: "rel_sum (=) (R (S \<union> w x)) (f x s) (f x s')"
    by (rule Cons.prems(2)) (simp_all add: Cons.prems(1))
  show ?case
  proof (cases "f x s")
    case (Inl e)
    then show ?thesis using st by (cases "f x s'") simp_all
  next
    case (Inr t)
    then obtain t' where t': "f x s' = Inr t'" and R: "R (S \<union> w x) t t'"
      using st by (cases "f x s'") simp_all
    have "rel_sum (=) (R ((S \<union> w x) \<union> (\<Union>x\<in>set xs. w x))) (foldM f xs t) (foldM f xs t')"
      by (rule Cons.IH [OF R]) (rule Cons.prems(2), simp_all)
    then show ?thesis using Inr t' by (simp add: Un_assoc)
  qed
qed

lemma wr_agree:
  "agree_on S a b \<Longrightarrow> rel_sum (=) (agree_on (insert i S)) (wr a i x) (wr b i x)"
  by (auto simp: agree_on_def wr_def nth_list_update)

lemma wr_kept:
  "kept_off S a0 a \<Longrightarrow> wr a i x = Inr a' \<Longrightarrow> kept_off (insert i S) a0 a'"
  by (auto simp: kept_off_def wr_def nth_list_update split: if_splits)

lemma agree_on_mono: "agree_on S a b \<Longrightarrow> T \<subseteq> S \<Longrightarrow> agree_on T a b"
  by (auto simp: agree_on_def)

lemma kept_off_mono: "kept_off S a0 a \<Longrightarrow> S \<subseteq> T \<Longrightarrow> kept_off T a0 a"
  by (auto simp: kept_off_def)

lemma fill_t: "fill base limit level t a = Inr (t', a') \<Longrightarrow> t' = max t limit"
proof (induction base limit level t a rule: fill.induct)
  case (1 base limit level t an)
  show ?case
  proof (cases "t < limit")
    case True
    with "1.prems" obtain an1 where w: "wr an (base + t) (word_of_int level) = Inr an1"
      and f: "fill base limit level (t + 1) an1 = Inr (t', a')"
      by (subst (asm) fill.simps) (auto split: sum.splits)
    from "1.IH" [OF True w f] True show ?thesis by simp
  next
    case False
    with "1.prems" show ?thesis by (subst (asm) fill.simps) simp
  qed
qed

lemma fill_kept:
  "fill base limit level t a = Inr (t', a') \<Longrightarrow> kept_off S a0 a \<Longrightarrow>
   kept_off (S \<union> {base + t ..< base + limit}) a0 a'"
proof (induction base limit level t a arbitrary: S rule: fill.induct)
  case (1 base limit level t an)
  show ?case
  proof (cases "t < limit")
    case True
    with "1.prems" obtain an1 where w: "wr an (base + t) (word_of_int level) = Inr an1"
      and f: "fill base limit level (t + 1) an1 = Inr (t', a')"
      by (subst (asm) fill.simps) (auto split: sum.splits)
    have "kept_off (insert (base + t) S \<union> {base + (t + 1) ..< base + limit}) a0 a'"
      by (rule "1.IH" [OF True w f]) (rule wr_kept [OF "1.prems"(2) w])
    moreover have "insert (base + t) S \<union> {base + (t + 1) ..< base + limit} = S \<union> {base + t ..< base + limit}"
      using True by auto
    ultimately show ?thesis by simp
  next
    case False
    with "1.prems" show ?thesis by (subst (asm) fill.simps) simp
  qed
qed

lemma rel_bind_Inr:
  assumes "rel_sum (=) R a a'"
    and "\<And>x x'. a = Inr x \<Longrightarrow> a' = Inr x' \<Longrightarrow> R x x' \<Longrightarrow> rel_sum (=) S (k x) (k' x')"
  shows "rel_sum (=) S (case a of Inl e \<Rightarrow> Inl e | Inr x \<Rightarrow> k x) (case a' of Inl e \<Rightarrow> Inl e | Inr x \<Rightarrow> k' x)"
  using assms by (cases a; cases a') simp_all

lemma fill_agree:
  "agree_on S a b \<Longrightarrow>
   rel_sum (=) (\<lambda>u w. fst u = fst w \<and> agree_on (S \<union> {base + t ..< base + limit}) (snd u) (snd w))
     (fill base limit level t a) (fill base limit level t b)"
proof (induction base limit level t a arbitrary: S b rule: fill.induct)
  case (1 base limit level t an)
  show ?case
  proof (cases "t < limit")
    case True
    have e: "insert (base + t) S \<union> {base + (t + 1) ..< base + limit} = S \<union> {base + t ..< base + limit}"
      using True by auto
    have u: "fill base limit level t c =
        (case wr c (base + t) (word_of_int level) of Inl e \<Rightarrow> Inl e
         | Inr c' \<Rightarrow> fill base limit level (t + 1) c')" for c
      using True by (subst fill.simps) simp
    show ?thesis
      unfolding u
    proof (rule rel_bind_Inr [OF wr_agree [OF "1.prems"]])
      fix x x'
      assume "wr an (base + t) (word_of_int level) = Inr x"
        and "agree_on (insert (base + t) S) x x'"
      from "1.IH" [OF True this]
      show "rel_sum (=) (\<lambda>u w. fst u = fst w \<and> agree_on (S \<union> {base + t ..< base + limit}) (snd u) (snd w))
        (fill base limit level (t + 1) x) (fill base limit level (t + 1) x')"
        unfolding e .
    qed
  next
    case False
    then have u: "fill base limit level t c = Inr (t, c)" for c
      by (subst fill.simps) simp
    show ?thesis
      unfolding u using False "1.prems" by simp
  qed
qed

lemma fold_max_ge: "t \<le> fold max xs (t::int)"
  by (induction xs arbitrary: t) (auto intro: order_trans [OF max.cobounded2])

lemma span_join:
  "t \<le> m \<Longrightarrow> max t l \<le> m \<Longrightarrow>
   S \<union> {base + t ..< base + l} \<union> {base + max t l ..< base + m} = S \<union> {base + t ..< base + (m::int)}"
  by (auto simp: max_def split: if_splits)

lemma fills_kept:
  "fills base segs (t, a) = Inr (t', a') \<Longrightarrow> kept_off S a0 a \<Longrightarrow>
   kept_off (S \<union> {base + t ..< base + fold max (map fst segs) t}) a0 a'"
proof (induction segs arbitrary: t a S)
  case Nil
  then show ?case by (simp add: fills_def)
next
  case (Cons seg segs)
  from Cons.prems(1) obtain t1 a1 where
    f: "fill base (fst seg) (snd seg) t a = Inr (t1, a1)" and r: "fills base segs (t1, a1) = Inr (t', a')"
    by (auto simp: fills_def split: sum.splits)
  have t1: "t1 = max t (fst seg)" by (rule fill_t [OF f])
  let ?m = "fold max (map fst segs) t1"
  have "kept_off (S \<union> {base + t ..< base + fst seg} \<union> {base + t1 ..< base + ?m}) a0 a'"
    by (rule Cons.IH [OF r fill_kept [OF f Cons.prems(2)]])
  moreover have "t1 \<le> ?m" by (rule fold_max_ge)
  then have "S \<union> {base + t ..< base + fst seg} \<union> {base + t1 ..< base + ?m} = S \<union> {base + t ..< base + ?m}"
    unfolding t1 by (intro span_join) simp_all
  moreover have "fold max (map fst (seg # segs)) t = ?m"
    by (simp add: t1 max.commute)
  ultimately show ?case by simp
qed

lemma fills_agree:
  "agree_on S a b \<Longrightarrow>
   rel_sum (=) (\<lambda>u w. fst u = fst w \<and> agree_on (S \<union> {base + t ..< base + fold max (map fst segs) t}) (snd u) (snd w))
     (fills base segs (t, a)) (fills base segs (t, b))"
proof (induction segs arbitrary: t a b S)
  case Nil
  then show ?case by (simp add: fills_def)
next
  case (Cons seg segs)
  have u: "fills base (seg # segs) (t, c) =
      (case fill base (fst seg) (snd seg) t c of Inl e \<Rightarrow> Inl e | Inr st \<Rightarrow> fills base segs st)" for c
    unfolding fills_def by simp
  show ?case
    unfolding u
  proof (rule rel_bind_Inr [OF fill_agree [OF Cons.prems]])
    fix x x' :: "int \<times> schar list"
    assume f: "fill base (fst seg) (snd seg) t a = Inr x"
      and ag: "fst x = fst x' \<and> agree_on (S \<union> {base + t ..< base + fst seg}) (snd x) (snd x')"
    have t1: "fst x = max t (fst seg)"
      by (rule fill_t [of base "fst seg" "snd seg" t a _ "snd x"]) (simp add: f)
    let ?m = "fold max (map fst segs) (fst x)"
    have "fst x \<le> ?m" by (rule fold_max_ge)
    then have e: "S \<union> {base + t ..< base + fst seg} \<union> {base + fst x ..< base + ?m} = S \<union> {base + t ..< base + ?m}"
      unfolding t1 by (intro span_join) simp_all
    have m: "fold max (map fst (seg # segs)) t = ?m"
      by (simp add: t1 max.commute)
    from Cons.IH [of "S \<union> {base + t ..< base + fst seg}" "snd x" "snd x'" "fst x"] ag
    show "rel_sum (=) (\<lambda>u w. fst u = fst w \<and>
        agree_on (S \<union> {base + t ..< base + fold max (map fst (seg # segs)) t}) (snd u) (snd w))
        (fills base segs x) (fills base segs x')"
      unfolding m e [symmetric] by (cases x; cases x') simp
  qed
qed

lemma shift_range: "(\<Union>t\<in>{a .. b - 1}. {base + t}) = {base + a ..< base + (b::int)}"
proof (intro set_eqI iffI)
  fix x assume "x \<in> (\<Union>t\<in>{a .. b - 1}. {base + t})"
  then show "x \<in> {base + a ..< base + b}" by auto
next
  fix x assume "x \<in> {base + a ..< base + b}"
  then have "x - base \<in> {a .. b - 1}" and "x = base + (x - base)" by auto
  then show "x \<in> (\<Union>t\<in>{a .. b - 1}. {base + t})" by blast
qed

lemma burst_out_kept:
  assumes "burst_out K base a = Inr a'" and "kept_off S a0 a"
  shows "kept_off (S \<union> {base + CB_BEG K ..< base + CB_BEG K + CB_CYCLES * CRT_CB_FREQ K}) a0 a'"
proof -
  have "kept_off (S \<union> (\<Union>t\<in>set [CB_BEG K .. CB_BEG K + CB_CYCLES * CRT_CB_FREQ K - 1]. {base + t})) a0 a'"
    by (rule foldM_kept [where I = "\<lambda>T. kept_off T a0" and S = S and w = "\<lambda>t. {base + t}",
          OF assms [unfolded burst_out_def]])
      (simp add: wr_kept)
  moreover have "(\<Union>t\<in>set [CB_BEG K .. CB_BEG K + CB_CYCLES * CRT_CB_FREQ K - 1]. {base + t})
      = {base + CB_BEG K ..< base + CB_BEG K + CB_CYCLES * CRT_CB_FREQ K}"
    using shift_range [where a = "CB_BEG K" and b = "CB_BEG K + CB_CYCLES * CRT_CB_FREQ K" and base = base]
    by (simp add: add.assoc)
  ultimately show ?thesis by simp
qed

lemma burst_out_agree:
  assumes "agree_on S a b"
  shows "rel_sum (=) (agree_on (S \<union> {base + CB_BEG K ..< base + CB_BEG K + CB_CYCLES * CRT_CB_FREQ K}))
           (burst_out K base a) (burst_out K base b)"
proof -
  have "rel_sum (=) (agree_on (S \<union> (\<Union>t\<in>set [CB_BEG K .. CB_BEG K + CB_CYCLES * CRT_CB_FREQ K - 1]. {base + t})))
      (burst_out K base a) (burst_out K base b)"
    unfolding burst_out_def
    by (rule foldM_agree [where R = agree_on and S = S and w = "\<lambda>t. {base + t}", OF assms])
      (simp add: wr_agree)
  moreover have "(\<Union>t\<in>set [CB_BEG K .. CB_BEG K + CB_CYCLES * CRT_CB_FREQ K - 1]. {base + t})
      = {base + CB_BEG K ..< base + CB_BEG K + CB_CYCLES * CRT_CB_FREQ K}"
    using shift_range [where a = "CB_BEG K" and b = "CB_BEG K + CB_CYCLES * CRT_CB_FREQ K" and base = base]
    by (simp add: add.assoc)
  ultimately show ?thesis by simp
qed

lemma sdiv_nonneg: "0 \<le> a \<Longrightarrow> 0 < b \<Longrightarrow> a sdiv b = a div (b::int)"
  by (cases "a = 0") (simp_all add: signed_divide_int_def sgn_if)

lemma percent_bounds:
  assumes "0 \<le> H" and "0 \<le> k" and "k \<le> 100"
  shows "0 \<le> (k * H) sdiv 100" and "(k * H) sdiv 100 \<le> (H::int)"
proof -
  have n: "0 \<le> k * H" using assms by simp
  then show "0 \<le> (k * H) sdiv 100" by (simp add: sdiv_nonneg)
  have "k * H \<le> 100 * H" using assms by (intro mult_right_mono) simp_all
  then have "(k * H) div 100 \<le> (100 * H) div 100" by (rule zdiv_mono1) simp
  then show "(k * H) sdiv 100 \<le> H" using n by (simp add: sdiv_nonneg)
qed

lemma percent_full: "0 \<le> H \<Longrightarrow> (100 * H) sdiv 100 = (H::int)"
  by (simp add: sdiv_nonneg)

lemma ns2pos_mono:
  assumes "0 \<le> CRT_HRES K" and "0 \<le> x" and "x \<le> y"
  shows "ns2pos K x \<le> ns2pos K y" and "0 \<le> ns2pos K x"
proof -
  have 0: "0 \<le> x * CRT_HRES K" "0 \<le> y * CRT_HRES K" using assms by simp_all
  have "x * CRT_HRES K \<le> y * CRT_HRES K" using assms by (intro mult_right_mono) simp_all
  then have "(x * CRT_HRES K) div 63500 \<le> (y * CRT_HRES K) div 63500" by (rule zdiv_mono1) simp
  then show "ns2pos K x \<le> ns2pos K y"
    using 0 by (simp add: ns2pos_def sdiv_nonneg LINE_ns_def FP_ns_def SYNC_ns_def BW_ns_def
        CB_ns_def BP_ns_def AV_ns_def)
  show "0 \<le> ns2pos K x"
    using 0 by (simp add: ns2pos_def sdiv_nonneg LINE_ns_def FP_ns_def SYNC_ns_def BW_ns_def
        CB_ns_def BP_ns_def AV_ns_def)
qed

lemma timing_order:
  assumes "0 \<le> CRT_HRES K"
  shows "0 \<le> SYNC_BEG K" "SYNC_BEG K \<le> BW_BEG K" "BW_BEG K \<le> AV_BEG K" "AV_BEG K \<le> CRT_HRES K"
proof -
  show "0 \<le> SYNC_BEG K"
    unfolding SYNC_BEG_def by (rule ns2pos_mono(2) [OF assms, of _ 1500]) (simp_all add: FP_ns_def)
  show "SYNC_BEG K \<le> BW_BEG K"
    unfolding SYNC_BEG_def BW_BEG_def by (rule ns2pos_mono(1) [OF assms]) (simp_all add: FP_ns_def SYNC_ns_def)
  show "BW_BEG K \<le> AV_BEG K"
    unfolding AV_BEG_def BW_BEG_def
    by (rule ns2pos_mono(1) [OF assms])
      (simp_all add: FP_ns_def SYNC_ns_def HB_ns_def BW_ns_def CB_ns_def BP_ns_def)
  have "ns2pos K HB_ns \<le> ns2pos K LINE_ns"
    by (rule ns2pos_mono(1) [OF assms])
      (simp_all add: LINE_ns_def FP_ns_def SYNC_ns_def HB_ns_def BW_ns_def CB_ns_def BP_ns_def AV_ns_def)
  moreover have "ns2pos K LINE_ns = CRT_HRES K"
    using assms by (simp add: ns2pos_def sdiv_nonneg LINE_ns_def FP_ns_def SYNC_ns_def BW_ns_def
        CB_ns_def BP_ns_def AV_ns_def)
  ultimately show "AV_BEG K \<le> CRT_HRES K" by (simp add: AV_BEG_def)
qed

lemma sync_line_span:
  assumes "0 \<le> CRT_HRES K"
  shows "n \<le> 3 \<or> (n \<ge> 7 \<and> n \<le> 9) \<Longrightarrow>
           fold max (map fst [((4 * CRT_HRES K) sdiv 100, SYNC_LEVEL), ((50 * CRT_HRES K) sdiv 100, BLANK_LEVEL),
             ((54 * CRT_HRES K) sdiv 100, SYNC_LEVEL), ((100 * CRT_HRES K) sdiv 100, BLANK_LEVEL)]) LINE_BEG
           = CRT_HRES K"
    and "a \<in> {4, 46} \<Longrightarrow>
           fold max (map fst [((a * CRT_HRES K) sdiv 100, SYNC_LEVEL), ((50 * CRT_HRES K) sdiv 100, BLANK_LEVEL),
             ((96 * CRT_HRES K) sdiv 100, SYNC_LEVEL), ((100 * CRT_HRES K) sdiv 100, BLANK_LEVEL)]) LINE_BEG
           = CRT_HRES K"
    and "fold max (map fst ([(SYNC_BEG K, BLANK_LEVEL), (BW_BEG K, SYNC_LEVEL), (AV_BEG K, BLANK_LEVEL)]
             @ (if n < CRT_TOP K then [(CRT_HRES K, BLANK_LEVEL)] else []))) LINE_BEG
           = (if n < CRT_TOP K then CRT_HRES K else AV_BEG K)"
proof -
  note p = percent_bounds [OF assms] percent_full [OF assms]
  show "fold max (map fst [((4 * CRT_HRES K) sdiv 100, SYNC_LEVEL), ((50 * CRT_HRES K) sdiv 100, BLANK_LEVEL),
             ((54 * CRT_HRES K) sdiv 100, SYNC_LEVEL), ((100 * CRT_HRES K) sdiv 100, BLANK_LEVEL)]) LINE_BEG
           = CRT_HRES K"
    using p(2) [of 4] p(2) [of 50] p(2) [of 54] assms by (simp add: p(3) LINE_BEG_def max_def)
  show "fold max (map fst [((a * CRT_HRES K) sdiv 100, SYNC_LEVEL), ((50 * CRT_HRES K) sdiv 100, BLANK_LEVEL),
             ((96 * CRT_HRES K) sdiv 100, SYNC_LEVEL), ((100 * CRT_HRES K) sdiv 100, BLANK_LEVEL)]) LINE_BEG
           = CRT_HRES K" if "a \<in> {4, 46}"
    using p(2) [of a] p(2) [of 50] p(2) [of 96] assms that by (auto simp: p(3) LINE_BEG_def max_def)
  show "fold max (map fst ([(SYNC_BEG K, BLANK_LEVEL), (BW_BEG K, SYNC_LEVEL), (AV_BEG K, BLANK_LEVEL)]
             @ (if n < CRT_TOP K then [(CRT_HRES K, BLANK_LEVEL)] else []))) LINE_BEG
           = (if n < CRT_TOP K then CRT_HRES K else AV_BEG K)"
    using timing_order [OF assms] by (simp add: LINE_BEG_def max_def)
qed

lemma sync_line_kept:
  assumes H: "0 \<le> CRT_HRES K" and r: "sync_line K s n a = Inr a'" and k: "kept_off S a0 a"
  shows "kept_off (S \<union> line_written K s n) a0 a'"
proof -
  let ?b = "n * CRT_HRES K"
  consider (pulses) "n \<le> 3 \<or> (n \<ge> 7 \<and> n \<le> 9)" | (vsync) "n \<ge> 4 \<and> n \<le> 6" | (video) "9 < n"
    by linarith
  then show ?thesis
  proof cases
    case pulses
    with r obtain t' where
      f: "fills ?b [((4 * CRT_HRES K) sdiv 100, SYNC_LEVEL), ((50 * CRT_HRES K) sdiv 100, BLANK_LEVEL),
             ((54 * CRT_HRES K) sdiv 100, SYNC_LEVEL), ((100 * CRT_HRES K) sdiv 100, BLANK_LEVEL)] (LINE_BEG, a)
          = Inr (t', a')"
      by (auto simp: sync_line_def Let_def split: sum.splits)
    from fills_kept [OF f k] show ?thesis
      unfolding sync_line_span(1) [OF H pulses] using pulses
      by (auto simp: line_written_def LINE_BEG_def)
  next
    case vsync
    define c :: int where "c = (if s_field s = 1 then 4 else 46)"
    have c: "c \<in> {4, 46}" by (simp add: c_def)
    from vsync r obtain t' where
      f: "fills ?b [((c * CRT_HRES K) sdiv 100, SYNC_LEVEL), ((50 * CRT_HRES K) sdiv 100, BLANK_LEVEL),
             ((96 * CRT_HRES K) sdiv 100, SYNC_LEVEL), ((100 * CRT_HRES K) sdiv 100, BLANK_LEVEL)] (LINE_BEG, a)
          = Inr (t', a')"
      by (auto simp: sync_line_def Let_def c_def split: sum.splits if_splits)
    from fills_kept [OF f k] show ?thesis
      unfolding sync_line_span(2) [OF H c] using vsync
      by (auto simp: line_written_def LINE_BEG_def)
  next
    case video
    let ?segs = "[(SYNC_BEG K, BLANK_LEVEL), (BW_BEG K, SYNC_LEVEL), (AV_BEG K, BLANK_LEVEL)]
             @ (if n < CRT_TOP K then [(CRT_HRES K, BLANK_LEVEL)] else [])"
    have u: "sync_line K s n a =
        (case fills ?b ?segs (LINE_BEG, a) of Inl e \<Rightarrow> Inl e
         | Inr r \<Rightarrow> if s_as_color s \<noteq> 0 then burst_out K ?b (snd r) else Inr (snd r))"
      using video by (simp add: sync_line_def Let_def)
    from r [unfolded u] obtain t1 a1 where
      f: "fills ?b ?segs (LINE_BEG, a) = Inr (t1, a1)" and
      b: "(if s_as_color s \<noteq> 0 then burst_out K ?b a1 else Inr a1) = Inr a'"
      by (cases "fills ?b ?segs (LINE_BEG, a)") (auto split: if_splits)
    let ?S1 = "S \<union> {?b ..< ?b + (if n < CRT_TOP K then CRT_HRES K else AV_BEG K)}"
    have k1: "kept_off ?S1 a0 a1"
      using fills_kept [OF f k] unfolding sync_line_span(3) [OF H] by (simp add: LINE_BEG_def)
    show ?thesis
    proof (cases "s_as_color s \<noteq> 0")
      case True
      with b have "burst_out K ?b a1 = Inr a'" by simp
      from burst_out_kept [OF this k1] show ?thesis
        using video True by (simp add: line_written_def Un_assoc)
    next
      case False
      with b k1 show ?thesis
        using video by (simp add: line_written_def)
    qed
  qed
qed

lemma sync_line_agree:
  assumes H: "0 \<le> CRT_HRES K" and k: "agree_on S a b"
  shows "rel_sum (=) (agree_on (S \<union> line_written K s n)) (sync_line K s n a) (sync_line K s n b)"
proof -
  let ?b = "n * CRT_HRES K"
  have fin: "rel_sum (=) (agree_on T) (case r of Inl e \<Rightarrow> Inl e | Inr x \<Rightarrow> Inr (snd x))
      (case r' of Inl e \<Rightarrow> Inl e | Inr x \<Rightarrow> Inr (snd x))"
    if "rel_sum (=) (\<lambda>u w. fst u = fst w \<and> agree_on T (snd u) (snd w)) r r'"
    for r r' :: "fault + (int \<times> schar list)" and T
    using that by (cases r; cases r') simp_all
  consider (pulses) "n \<le> 3 \<or> (n \<ge> 7 \<and> n \<le> 9)" | (vsync) "n \<ge> 4 \<and> n \<le> 6" | (video) "9 < n"
    by linarith
  then show ?thesis
  proof cases
    case pulses
    have w: "S \<union> line_written K s n = S \<union> {?b + LINE_BEG ..< ?b + CRT_HRES K}"
      using pulses by (auto simp: line_written_def LINE_BEG_def)
    show ?thesis
      using pulses fin [OF fills_agree [OF k, where base = ?b and t = LINE_BEG and segs =
            "[((4 * CRT_HRES K) sdiv 100, SYNC_LEVEL), ((50 * CRT_HRES K) sdiv 100, BLANK_LEVEL),
             ((54 * CRT_HRES K) sdiv 100, SYNC_LEVEL), ((100 * CRT_HRES K) sdiv 100, BLANK_LEVEL)]"],
          unfolded sync_line_span(1) [OF H pulses]]
      by (simp add: sync_line_def Let_def w)
  next
    case vsync
    define c :: int where "c = (if s_field s = 1 then 4 else 46)"
    have c: "c \<in> {4, 46}" by (simp add: c_def)
    have w: "S \<union> line_written K s n = S \<union> {?b + LINE_BEG ..< ?b + CRT_HRES K}"
      using vsync by (auto simp: line_written_def LINE_BEG_def)
    show ?thesis
      using vsync fin [OF fills_agree [OF k, where base = ?b and t = LINE_BEG and segs =
            "[((c * CRT_HRES K) sdiv 100, SYNC_LEVEL), ((50 * CRT_HRES K) sdiv 100, BLANK_LEVEL),
             ((96 * CRT_HRES K) sdiv 100, SYNC_LEVEL), ((100 * CRT_HRES K) sdiv 100, BLANK_LEVEL)]"],
          unfolded sync_line_span(2) [OF H c]]
      by (auto simp: sync_line_def Let_def w c_def)
  next
    case video
    let ?segs = "[(SYNC_BEG K, BLANK_LEVEL), (BW_BEG K, SYNC_LEVEL), (AV_BEG K, BLANK_LEVEL)]
             @ (if n < CRT_TOP K then [(CRT_HRES K, BLANK_LEVEL)] else [])"
    let ?S1 = "S \<union> {?b + LINE_BEG ..< ?b + (if n < CRT_TOP K then CRT_HRES K else AV_BEG K)}"
    have u: "sync_line K s n c =
        (case fills ?b ?segs (LINE_BEG, c) of Inl e \<Rightarrow> Inl e
         | Inr r \<Rightarrow> if s_as_color s \<noteq> 0 then burst_out K ?b (snd r) else Inr (snd r))" for c
      using video by (simp add: sync_line_def Let_def)
    have f: "rel_sum (=) (\<lambda>u w. fst u = fst w \<and> agree_on ?S1 (snd u) (snd w))
        (fills ?b ?segs (LINE_BEG, a)) (fills ?b ?segs (LINE_BEG, b))"
      using fills_agree [OF k, where base = ?b and t = LINE_BEG and segs = ?segs]
      unfolding sync_line_span(3) [OF H] .
    show ?thesis
      unfolding u
    proof (rule rel_bind [OF f])
      fix x x' :: "int \<times> schar list"
      assume "fst x = fst x' \<and> agree_on ?S1 (snd x) (snd x')"
      then have ag: "agree_on ?S1 (snd x) (snd x')" by simp
      show "rel_sum (=) (agree_on (S \<union> line_written K s n))
          (if s_as_color s \<noteq> 0 then burst_out K ?b (snd x) else Inr (snd x))
          (if s_as_color s \<noteq> 0 then burst_out K ?b (snd x') else Inr (snd x'))"
      proof (cases "s_as_color s \<noteq> 0")
        case True
        then show ?thesis
          using burst_out_agree [OF ag, where K = K and base = ?b] video
          by (simp add: line_written_def Un_assoc LINE_BEG_def)
      next
        case False
        then show ?thesis
          using ag video by (simp add: line_written_def LINE_BEG_def)
      qed
    qed
  qed
qed

lemma encode_sample_kept:
  "encode_sample K v s y syA syB x st = Inr st' \<Longrightarrow> kept_off T a0 (snd st) \<Longrightarrow>
   kept_off (T \<union> {sample_index K y x}) a0 (snd st')"
  by (auto simp: encode_sample_def Let_def sample_index_def split: sum.splits prod.splits
      dest: wr_kept)

lemma encode_sample_agree:
  assumes "agree_on T a b"
  shows "rel_sum (=) (\<lambda>u w. fst u = fst w \<and> agree_on (insert (sample_index K y x) T) (snd u) (snd w))
           (encode_sample K v s y syA syB x (G, a)) (encode_sample K v s y syA syB x (G, b))"
  unfolding encode_sample_def Let_def
  apply (rule rel_bind_same)+
  apply (simp only: case_prod_beta fst_conv snd_conv)
  apply (rule rel_bind [OF wr_agree [OF assms]])
  apply (simp add: sample_index_def)
  done

lemma encode_sample_ctx: "encode_sample K (v\<lparr>analog := bn\<rparr>) = encode_sample K v"
  by (intro ext) (simp add: encode_sample_def Let_def cong: sum.case_cong prod.case_cong)

lemma encode_row_ctx: "encode_row K (v\<lparr>analog := bn\<rparr>) = encode_row K v"
  by (intro ext) (simp add: encode_row_def encode_sample_ctx)

lemma encode_row_kept:
  assumes "encode_row K v s y st = Inr st'" and "kept_off T a0 (snd st)"
  shows "kept_off (T \<union> (\<Union>x\<in>{0 .. destw K - 1}. {sample_index K y x})) a0 (snd st')"
proof -
  from assms(1) obtain syA syB G where
    f: "foldM (encode_sample K v s y syA syB) [0 .. destw K - 1] (G, snd st) = Inr st'"
    by (auto simp: encode_row_def Let_def)
  have "kept_off (T \<union> (\<Union>x\<in>set [0 .. destw K - 1]. {sample_index K y x})) a0 (snd st')"
    by (rule foldM_kept [where I = "\<lambda>T t. kept_off T a0 (snd t)" and S = T
          and w = "\<lambda>x. {sample_index K y x}", OF f])
      (use assms(2) in \<open>auto dest: encode_sample_kept\<close>)
  then show ?thesis by simp
qed

lemma encode_row_agree:
  assumes "fst u = fst w \<and> agree_on T (snd u) (snd w)"
  shows "rel_sum (=) (\<lambda>u w. fst u = fst w \<and>
             agree_on (T \<union> (\<Union>x\<in>{0 .. destw K - 1}. {sample_index K y x})) (snd u) (snd w))
           (encode_row K v s y u) (encode_row K v s y w)"
proof -
  have "rel_sum (=) (\<lambda>u w. fst u = fst w \<and>
             agree_on (T \<union> (\<Union>x\<in>set [0 .. destw K - 1]. {sample_index K y x})) (snd u) (snd w))
      (foldM (encode_sample K v s y syA syB) [0 .. destw K - 1] (G, snd u))
      (foldM (encode_sample K v s y syA syB) [0 .. destw K - 1] (G, snd w))" for syA syB G
    by (rule foldM_agree [where R = "\<lambda>T u w. fst u = fst w \<and> agree_on T (snd u) (snd w)" and S = T
          and w = "\<lambda>x. {sample_index K y x}"])
      (use assms in \<open>auto intro: encode_sample_agree\<close>)
  then show ?thesis
    using assms by (simp add: encode_row_def Let_def)
qed

lemma line_written_field: "line_written K (s\<lparr>s_field := f\<rparr>) n = line_written K s n"
  by (simp add: line_written_def)

lemma written_alt:
  "written K s =
     {} \<union> (\<Union>n\<in>set [0 .. CRT_VRES K - 1]. line_written K s n) \<union>
     (\<Union>y\<in>set [0 .. desth K - 1]. \<Union>x\<in>{0 .. destw K - 1}. {sample_index K y x})"
  by (simp add: written_def sample_index_def)

lemma crt_2ntsc_kept:
  assumes H: "0 \<le> CRT_HRES K" and r: "crt_2ntsc K G v s = Inr (G', v', s')"
  shows "kept_off (written K s) (analog v) (analog v')"
proof -
  let ?s = "s\<lparr>s_field := s_field s AND 1\<rparr>"
  from r obtain an an' where
    1: "foldM (sync_line K ?s) [0 .. CRT_VRES K - 1] (analog v) = Inr an" and
    2: "foldM (encode_row K v ?s) [0 .. desth K - 1] (G, an) = Inr (G', an')" and
    3: "analog v' = an'"
    by (auto simp: crt_2ntsc_def Let_def split: sum.splits prod.splits)
  have 0: "kept_off {} (analog v) (analog v)" by (simp add: kept_off_def)
  have k1: "kept_off ({} \<union> (\<Union>n\<in>set [0 .. CRT_VRES K - 1]. line_written K s n)) (analog v) an"
    by (rule foldM_kept [where I = "\<lambda>T. kept_off T (analog v)" and w = "line_written K s", OF 1 0])
      (use sync_line_kept [OF H, where s = ?s] in \<open>simp add: line_written_field\<close>)
  have "kept_off (({} \<union> (\<Union>n\<in>set [0 .. CRT_VRES K - 1]. line_written K s n)) \<union>
      (\<Union>y\<in>set [0 .. desth K - 1]. \<Union>x\<in>{0 .. destw K - 1}. {sample_index K y x})) (analog v) (snd (G', an'))"
    by (rule foldM_kept [where I = "\<lambda>T t. kept_off T (analog v) (snd t)"
          and w = "\<lambda>y. \<Union>x\<in>{0 .. destw K - 1}. {sample_index K y x}", OF 2])
      (use k1 in \<open>auto dest: encode_row_kept\<close>)
  then show ?thesis
    unfolding written_alt 3 by simp
qed

lemma crt_2ntsc_agree:
  assumes H: "0 \<le> CRT_HRES K" and len: "length bn = length (analog v)"
  shows "rel_sum (=) (\<lambda>r r'. fst r = fst r' \<and> snd (snd r) = snd (snd r') \<and>
             agree_on (written K s) (analog (fst (snd r))) (analog (fst (snd r'))))
           (crt_2ntsc K G v s) (crt_2ntsc K G (v\<lparr>analog := bn\<rparr>) s)"
proof -
  let ?s = "s\<lparr>s_field := s_field s AND 1\<rparr>"
  let ?W1 = "{} \<union> (\<Union>n\<in>set [0 .. CRT_VRES K - 1]. line_written K s n)"
  let ?W2 = "?W1 \<union> (\<Union>y\<in>set [0 .. desth K - 1]. \<Union>x\<in>{0 .. destw K - 1}. {sample_index K y x})"
  have 0: "agree_on {} (analog v) bn" using len by (simp add: agree_on_def)
  have e: "analog (v\<lparr>analog := bn\<rparr>) = bn" by simp
  have 1: "rel_sum (=) (agree_on ?W1)
      (foldM (sync_line K ?s) [0 .. CRT_VRES K - 1] (analog v))
      (foldM (sync_line K ?s) [0 .. CRT_VRES K - 1] bn)"
    by (rule foldM_agree [where R = agree_on and w = "line_written K s", OF 0])
      (use sync_line_agree [OF H, where s = ?s] in \<open>simp add: line_written_field\<close>)
  have 2: "rel_sum (=) (\<lambda>u w. fst u = fst w \<and> agree_on ?W2 (snd u) (snd w))
      (foldM (encode_row K v ?s) [0 .. desth K - 1] (G, a))
      (foldM (encode_row K v ?s) [0 .. desth K - 1] (G, b))" if "agree_on ?W1 a b" for a b
    by (rule foldM_agree [where R = "\<lambda>T u w. fst u = fst w \<and> agree_on T (snd u) (snd w)"
          and w = "\<lambda>y. \<Union>x\<in>{0 .. destw K - 1}. {sample_index K y x}"])
      (use that in \<open>auto intro: encode_row_agree\<close>)
  show ?thesis
    unfolding crt_2ntsc_def Let_def encode_row_ctx written_alt e
    apply (rule rel_bind [OF 1])
    apply (rule rel_bind [OF 2])
     apply assumption
    apply (clarsimp)
    done
qed

lemma foldM_total:
  assumes "I s" and "\<And>x t. x \<in> set xs \<Longrightarrow> I t \<Longrightarrow> \<exists>t'. f x t = Inr t' \<and> I t'"
  shows "\<exists>s'. foldM f xs s = Inr s' \<and> I s'"
  using assms
proof (induction xs arbitrary: s)
  case Nil
  then show ?case by simp
next
  case (Cons x xs)
  from Cons.prems(2) [of x s] Cons.prems(1) obtain t where t: "f x s = Inr t" and I: "I t"
    by auto
  from Cons.IH [OF I] Cons.prems(2) obtain s' where "foldM f xs t = Inr s' \<and> I s'"
    by auto
  then show ?case using t by simp
qed

lemma wr_total:
  "0 \<le> i \<Longrightarrow> i < int (length a) \<Longrightarrow> \<exists>a'. wr a i x = Inr a' \<and> length a' = length a"
  by (simp add: wr_def)

lemma fill_total:
  "0 \<le> base + t \<Longrightarrow> base + limit \<le> int (length a) \<Longrightarrow>
   \<exists>a'. fill base limit level t a = Inr (max t limit, a') \<and> length a' = length a"
proof (induction base limit level t a rule: fill.induct)
  case (1 base limit level t an)
  show ?case
  proof (cases "t < limit")
    case True
    then obtain an1 where w: "wr an (base + t) (word_of_int level) = Inr an1"
      and l: "length an1 = length an"
      using wr_total [of "base + t" an "word_of_int level"] "1.prems" by auto
    from "1.IH" [OF True w] "1.prems" l obtain a' where
      "fill base limit level (t + 1) an1 = Inr (max (t + 1) limit, a')" and "length a' = length an1"
      by auto
    then show ?thesis
      using True w l by (subst fill.simps) (simp add: max_def)
  next
    case False
    then show ?thesis by (subst fill.simps) (simp add: max_def)
  qed
qed

lemma fills_total:
  "0 \<le> base + t \<Longrightarrow> \<forall>seg\<in>set segs. base + fst seg \<le> int (length a) \<Longrightarrow>
   \<exists>r. fills base segs (t, a) = Inr r \<and> length (snd r) = length a \<and> 0 \<le> base + fst r"
proof (induction segs arbitrary: t a)
  case Nil
  then show ?case by (simp add: fills_def)
next
  case (Cons seg segs)
  from fill_total [OF Cons.prems(1), of "fst seg" a "snd seg"] Cons.prems(2) obtain a1 where
    f: "fill base (fst seg) (snd seg) t a = Inr (max t (fst seg), a1)" and l: "length a1 = length a"
    by auto
  have "0 \<le> base + max t (fst seg)" using Cons.prems(1) by simp
  from Cons.IH [OF this, of a1] Cons.prems(2) l obtain r where
    "fills base segs (max t (fst seg), a1) = Inr r \<and> length (snd r) = length a1 \<and> 0 \<le> base + fst r"
    by auto
  then show ?case
    using f l by (simp add: fills_def)
qed

lemma burst_out_total:
  assumes "0 \<le> base + CB_BEG K" and "base + CB_BEG K + CB_CYCLES * CRT_CB_FREQ K \<le> int (length a)"
  shows "\<exists>a'. burst_out K base a = Inr a' \<and> length a' = length a"
  unfolding burst_out_def
  by (rule foldM_total [where I = "\<lambda>c. length c = length a"])
    (use assms in \<open>auto simp: wr_def\<close>)

lemma sync_line_total:
  assumes H: "0 \<le> CRT_HRES K" and n: "0 \<le> n" and l: "(n + 1) * CRT_HRES K \<le> int (length a)"
    and cb: "CB_BEG K + CB_CYCLES * CRT_CB_FREQ K \<le> CRT_HRES K"
  shows "\<exists>a'. sync_line K s n a = Inr a' \<and> length a' = length a"
proof -
  let ?b = "n * CRT_HRES K"
  have b: "0 \<le> ?b + LINE_BEG" using H n by (simp add: LINE_BEG_def)
  have e: "?b + CRT_HRES K \<le> int (length a)" using l by (simp add: algebra_simps)
  have p: "?b + (k * CRT_HRES K) sdiv 100 \<le> int (length a)" if "0 \<le> k" "k \<le> 100" for k
    using percent_bounds(2) [OF H that] e by simp
  have t: "?b + SYNC_BEG K \<le> int (length a)" "?b + BW_BEG K \<le> int (length a)"
    "?b + AV_BEG K \<le> int (length a)"
    using timing_order [OF H] e by simp_all
  have c0: "0 \<le> CB_BEG K"
    unfolding CB_BEG_def by (rule ns2pos_mono(2) [OF H, of _ 6800]) (simp_all add: FP_ns_def SYNC_ns_def BW_ns_def)
  have c: "0 \<le> ?b + CB_BEG K" "?b + CB_BEG K + CB_CYCLES * CRT_CB_FREQ K \<le> int (length a)"
    using c0 H n cb e by simp_all
  consider (pulses) "n \<le> 3 \<or> (n \<ge> 7 \<and> n \<le> 9)" | (vsync) "n \<ge> 4 \<and> n \<le> 6" | (video) "9 < n"
    by linarith
  then show ?thesis
  proof cases
    case pulses
    from fills_total [OF b, of "[((4 * CRT_HRES K) sdiv 100, SYNC_LEVEL),
        ((50 * CRT_HRES K) sdiv 100, BLANK_LEVEL), ((54 * CRT_HRES K) sdiv 100, SYNC_LEVEL),
        ((100 * CRT_HRES K) sdiv 100, BLANK_LEVEL)]" a]
    obtain r where "fills ?b [((4 * CRT_HRES K) sdiv 100, SYNC_LEVEL),
        ((50 * CRT_HRES K) sdiv 100, BLANK_LEVEL), ((54 * CRT_HRES K) sdiv 100, SYNC_LEVEL),
        ((100 * CRT_HRES K) sdiv 100, BLANK_LEVEL)] (LINE_BEG, a) = Inr r" and "length (snd r) = length a"
      using p by auto
    then show ?thesis using pulses by (simp add: sync_line_def)
  next
    case vsync
    have "\<exists>r. fills ?b [((k * CRT_HRES K) sdiv 100, SYNC_LEVEL),
        ((50 * CRT_HRES K) sdiv 100, BLANK_LEVEL), ((96 * CRT_HRES K) sdiv 100, SYNC_LEVEL),
        ((100 * CRT_HRES K) sdiv 100, BLANK_LEVEL)] (LINE_BEG, a) = Inr r \<and> length (snd r) = length a"
      if "k = 4 \<or> k = 46" for k
      using fills_total [OF b, of "[((k * CRT_HRES K) sdiv 100, SYNC_LEVEL),
        ((50 * CRT_HRES K) sdiv 100, BLANK_LEVEL), ((96 * CRT_HRES K) sdiv 100, SYNC_LEVEL),
        ((100 * CRT_HRES K) sdiv 100, BLANK_LEVEL)]" a] p that by auto
    from this [of 4] this [of 46] show ?thesis
      using vsync by (auto simp: sync_line_def)
  next
    case video
    let ?segs = "[(SYNC_BEG K, BLANK_LEVEL), (BW_BEG K, SYNC_LEVEL), (AV_BEG K, BLANK_LEVEL)]
                   @ (if n < CRT_TOP K then [(CRT_HRES K, BLANK_LEVEL)] else [])"
    from fills_total [OF b, of ?segs a] obtain r where
      f: "fills ?b ?segs (LINE_BEG, a) = Inr r" and lr: "length (snd r) = length a"
      using t e by auto
    from burst_out_total [of ?b K "snd r"] c lr obtain a' where
      "burst_out K ?b (snd r) = Inr a'" and "length a' = length a"
      by auto
    then show ?thesis
      using video f lr by (simp add: sync_line_def)
  qed
qed

lemma div_less_bound:
  assumes "0 < b" and "a < c * b"
  shows "a div b < (c::int)"
proof (rule ccontr)
  assume "\<not> a div b < c"
  then have "c * b \<le> (a div b) * b"
    using assms(1) by (intro mult_right_mono) simp_all
  also have "(a div b) * b = a - a mod b"
    by (simp only: minus_mod_eq_div_mult)
  also have "\<dots> \<le> a"
    using pos_mod_sign [OF assms(1), of a] by simp
  finally show False using assms(2) by simp
qed

lemma sdiv_range:
  assumes "0 \<le> a" and "0 < b" and "a < c * b"
  shows "0 \<le> a sdiv b" and "a sdiv b < (c::int)"
  using assms div_less_bound [of b a c] by (simp_all add: sdiv_nonneg pos_imp_zdiv_nonneg_iff)

lemma encode_sample_total:
  assumes x: "0 \<le> x" "x < destw K" and w: "0 < s_w s"
    and rA: "0 \<le> syA" "syA + s_w s \<le> int (length (s_rgb s))"
    and rB: "0 \<le> syB" "syB + s_w s \<le> int (length (s_rgb s))"
    and i: "0 \<le> sample_index K y x" "sample_index K y x < int (length a)"
  shows "\<exists>G' a'. encode_sample K v s y syA syB x (G, a) = Inr (G', a') \<and> length a' = length a"
proof -
  let ?sx = "(x * s_w s) sdiv destw K"
  have "x * s_w s < s_w s * destw K"
    using x w by (simp add: mult.commute)
  moreover have "0 \<le> x * s_w s" using x w by simp
  ultimately have sx: "0 \<le> ?sx" "?sx < s_w s"
    using sdiv_range [of "x * s_w s" "destw K" "s_w s"] x by simp_all
  obtain pA where pA: "rd (s_rgb s) (?sx + syA) = Inr pA"
    using sx rA by (simp add: rd_def)
  obtain pB where pB: "rd (s_rgb s) (?sx + syB) = Inr pB"
    using sx rB by (simp add: rd_def)
  show ?thesis
    using i unfolding encode_sample_def Let_def pA pB sample_index_def
    by (simp add: wr_def split: prod.splits)
qed

lemma source_row:
  assumes d: "0 < dh" and h: "dh sdiv 2 < sh" and w: "0 < sw" and n: "0 \<le> m" "m < dh * sh"
    and len: "sw * sh \<le> int (length rgb)"
  shows "0 \<le> (if m sdiv dh \<ge> sh then sh else m sdiv dh) * sw"
    and "(if m sdiv dh \<ge> sh then sh else m sdiv dh) * sw + sw \<le> int (length rgb)"
proof -
  have r: "0 \<le> m sdiv dh" "m sdiv dh < sh"
    using sdiv_range [of m dh sh] n d by (simp_all add: mult.commute)
  then show "0 \<le> (if m sdiv dh \<ge> sh then sh else m sdiv dh) * sw"
    using w by simp
  have "(m sdiv dh + 1) * sw \<le> sh * sw"
    using r w by (intro mult_right_mono) simp_all
  then show "(if m sdiv dh \<ge> sh then sh else m sdiv dh) * sw + sw \<le> int (length rgb)"
    using r len by (simp add: algebra_simps)
qed

lemma encode_row_total:
  assumes y: "0 \<le> y" "y < desth K" and w: "0 < s_w s" and h: "desth K sdiv 2 < s_h s"
    and f: "s_field s = 0" and len: "s_w s * s_h s \<le> int (length (s_rgb s))"
    and g: "0 \<le> CRT_HRES K" "0 \<le> xo K" "0 \<le> yo K" "xo K + destw K \<le> CRT_HRES K"
      "(yo K + desth K) * CRT_HRES K \<le> int (length a)"
  shows "\<exists>G' a'. encode_row K v s y (G, a) = Inr (G', a') \<and> length a' = length a"
proof -
  have d: "0 < desth K" using y by simp
  then have d2: "0 \<le> desth K sdiv 2" by (simp add: sdiv_nonneg)
  then have hp: "0 < s_h s" using h by simp
  have fo: "((s_field s * s_h s + desth K) sdiv desth K) sdiv 2 = 0"
    using d by (simp add: f sdiv_nonneg)
  have yh: "y * s_h s + s_h s \<le> desth K * s_h s"
    using mult_right_mono [of "y + 1" "desth K" "s_h s"] y hp by (simp add: algebra_simps)
  have mA: "0 \<le> y * s_h s" "y * s_h s < desth K * s_h s"
    using y hp yh by simp_all
  have mB: "0 \<le> y * s_h s + desth K sdiv 2" "y * s_h s + desth K sdiv 2 < desth K * s_h s"
    using y hp yh d2 h by simp_all
  note A = source_row [OF d h w mA len]
  note B = source_row [OF d h w mB len]
  have idx: "0 \<le> sample_index K y x \<and> sample_index K y x < int (length a)"
    if "0 \<le> x" "x < destw K" for x
  proof -
    have "0 \<le> (y + yo K) * CRT_HRES K" using y g by simp
    moreover have "(y + yo K + 1) * CRT_HRES K \<le> (yo K + desth K) * CRT_HRES K"
      using y g by (intro mult_right_mono) simp_all
    ultimately show ?thesis
      using that g by (simp add: sample_index_def algebra_simps)
  qed
  let ?A = "(if (y * s_h s) sdiv desth K \<ge> s_h s then s_h s else (y * s_h s) sdiv desth K) * s_w s"
  let ?B = "(if (y * s_h s + desth K sdiv 2) sdiv desth K \<ge> s_h s then s_h s
             else (y * s_h s + desth K sdiv 2) sdiv desth K) * s_w s"
  have "\<exists>st'. foldM (encode_sample K v s y ?A ?B) [0 .. destw K - 1] (G0, a) = Inr st' \<and>
      length (snd st') = length a" for G0
  proof (rule foldM_total [where I = "\<lambda>st. length (snd st) = length a"])
    show "length (snd (G0, a)) = length a" by simp
  next
    fix x and t :: "statics \<times> schar list"
    assume x: "x \<in> set [0 .. destw K - 1]" and t: "length (snd t) = length a"
    then have x': "0 \<le> x" "x < destw K" by simp_all
    from idx [OF x'] t have i: "0 \<le> sample_index K y x" "sample_index K y x < int (length (snd t))"
      by simp_all
    from encode_sample_total [OF x' w A B i, of v "fst t"] t
    show "\<exists>t'. encode_sample K v s y ?A ?B x t = Inr t' \<and> length (snd t') = length a"
      by auto
  qed
  then show ?thesis
    unfolding encode_row_def Let_def fo add_0_right by (simp split del: if_split)
qed

lemma crt_2ntsc_total:
  assumes H: "0 \<le> CRT_HRES K"
    and len: "int (length (analog v)) = CRT_VRES K * CRT_HRES K"
    and cb: "CB_BEG K + CB_CYCLES * CRT_CB_FREQ K \<le> CRT_HRES K"
    and g: "0 \<le> xo K" "0 \<le> yo K" "xo K + destw K \<le> CRT_HRES K" "yo K + desth K \<le> CRT_VRES K"
    and w: "0 < s_w s" and h: "desth K sdiv 2 < s_h s" and f: "s_field s AND 1 = 0"
    and rgb: "s_w s * s_h s \<le> int (length (s_rgb s))"
  shows "\<exists>G' v'. crt_2ntsc K G v s = Inr (G', v', s\<lparr>s_field := s_field s AND 1\<rparr>) \<and>
           length (analog v') = length (analog v)"
proof -
  let ?s = "s\<lparr>s_field := s_field s AND 1\<rparr>"
  have "\<exists>a'. foldM (sync_line K ?s) [0 .. CRT_VRES K - 1] (analog v) = Inr a' \<and>
      length a' = length (analog v)"
  proof (rule foldM_total [where I = "\<lambda>a. length a = length (analog v)"])
    show "length (analog v) = length (analog v)" ..
  next
    fix n and a :: "schar list"
    assume n: "n \<in> set [0 .. CRT_VRES K - 1]" and a: "length a = length (analog v)"
    have "(n + 1) * CRT_HRES K \<le> CRT_VRES K * CRT_HRES K"
      using n H by (intro mult_right_mono) simp_all
    then have "(n + 1) * CRT_HRES K \<le> int (length a)"
      using len a by simp
    from sync_line_total [OF H _ this cb, of ?s] n a
    show "\<exists>a'. sync_line K ?s n a = Inr a' \<and> length a' = length (analog v)"
      by simp
  qed
  then obtain a1 where 1: "foldM (sync_line K ?s) [0 .. CRT_VRES K - 1] (analog v) = Inr a1"
    and l1: "length a1 = length (analog v)"
    by blast
  have "\<exists>st'. foldM (encode_row K v ?s) [0 .. desth K - 1] (G, a1) = Inr st' \<and>
      length (snd st') = length (analog v)"
  proof (rule foldM_total [where I = "\<lambda>st. length (snd st) = length (analog v)"])
    show "length (snd (G, a1)) = length (analog v)" using l1 by simp
  next
    fix y and st :: "statics \<times> schar list"
    assume y: "y \<in> set [0 .. desth K - 1]" and st: "length (snd st) = length (analog v)"
    have "(yo K + desth K) * CRT_HRES K \<le> CRT_VRES K * CRT_HRES K"
      using g H by (intro mult_right_mono) simp_all
    then have e: "(yo K + desth K) * CRT_HRES K \<le> int (length (snd st))"
      using len st by simp
    have y': "0 \<le> y" "y < desth K" using y by simp_all
    from encode_row_total [of y K ?s "snd st" v "fst st", OF y' _ _ _ _ H g(1,2,3) e] w h f rgb st
    show "\<exists>st'. encode_row K v ?s y st = Inr st' \<and> length (snd st') = length (analog v)"
      by auto
  qed
  then obtain G' a2 where 2: "foldM (encode_row K v ?s) [0 .. desth K - 1] (G, a1) = Inr (G', a2)"
    and l2: "length a2 = length (analog v)"
    by auto
  show ?thesis
    unfolding crt_2ntsc_def Let_def 1 using 2 l2 by simp
qed

lemma K_ntsc_geometry:
  "CB_BEG K_ntsc = 97" "AV_BEG K_ntsc = 156" "AV_LEN K_ntsc = 753"
  "destw K_ntsc = 637" "desth K_ntsc = 232" "xo K_ntsc = 216" "yo K_ntsc = 29"
proof -
  show cb: "CB_BEG K_ntsc = 97"
    by (simp add: CB_BEG_def ns2pos_def FP_ns_def SYNC_ns_def BW_ns_def CB_ns_def BP_ns_def
        AV_ns_def LINE_ns_def K_ntsc_fields signed_divide_int_def)
  show ab: "AV_BEG K_ntsc = 156"
    by (simp add: AV_BEG_def HB_ns_def ns2pos_def FP_ns_def SYNC_ns_def BW_ns_def CB_ns_def BP_ns_def
        AV_ns_def LINE_ns_def K_ntsc_fields signed_divide_int_def)
  show al: "AV_LEN K_ntsc = 753"
    by (simp add: AV_LEN_def ns2pos_def FP_ns_def SYNC_ns_def BW_ns_def CB_ns_def BP_ns_def
        AV_ns_def LINE_ns_def K_ntsc_fields signed_divide_int_def)
  show dw: "destw K_ntsc = 637"
    by (simp add: destw_def al)
  show dh: "desth K_ntsc = 232"
    by (simp add: desth_def K_ntsc_fields)
  show "xo K_ntsc = 216"
    by (simp add: xo_def ab al dw signed_divide_int_def)
  show "yo K_ntsc = 29"
    by (simp add: yo_def dh K_ntsc_fields signed_divide_int_def)
qed

lemma frame_total:
  assumes "length a = nat (CRT_INPUT_SIZE K_ntsc)"
  shows "\<exists>G' v'. crt_2ntsc K_ntsc G (v_stale\<lparr>analog := a\<rparr>) frame_src = Inr (G', v', frame_src) \<and>
           length (analog v') = length a"
proof -
  have s: "frame_src\<lparr>s_field := s_field frame_src AND 1\<rparr> = frame_src"
    by (simp add: frame_src_def)
  have "\<exists>G' v'. crt_2ntsc K_ntsc G (v_stale\<lparr>analog := a\<rparr>) frame_src =
      Inr (G', v', frame_src\<lparr>s_field := s_field frame_src AND 1\<rparr>) \<and>
      length (analog v') = length (analog (v_stale\<lparr>analog := a\<rparr>))"
    by (rule crt_2ntsc_total)
      (simp_all add: K_ntsc_fields K_ntsc_geometry CB_CYCLES_def assms CRT_INPUT_SIZE_def
        frame_src_def signed_divide_int_def)
  then show ?thesis
    unfolding s by simp
qed

lemma last_sample_not_written: "238419 \<notin> written K_ntsc s"
  by (auto simp: written_def line_written_def sample_index_def K_ntsc_fields K_ntsc_geometry
      CB_CYCLES_def split: if_splits)

text \<open>
  C1, as worded, does not hold: on the lines from \<^verbatim>\<open>CRT_TOP\<close> on, \<^verbatim>\<open>crt_2ntsc\<close> stores nothing
  after \<^verbatim>\<open>AV_BEG\<close> outside the destination rectangle. With the constants of the NTSC header,
  a call on a buffer holding \<open>-100\<close> everywhere returns with \<open>-100\<close> still in the last sample
  (line 261, column 909).
\<close>

theorem crt_2ntsc_leaves_last_sample:
  "\<exists>G' v' s'. crt_2ntsc K_ntsc G_boot v_stale frame_src = Inr (G', v', s') \<and>
     analog v' ! 238419 = - 100"
proof -
  have l: "length (stale K_ntsc) = nat (CRT_INPUT_SIZE K_ntsc)"
    by (simp add: stale_def)
  have v: "v_stale\<lparr>analog := stale K_ntsc\<rparr> = v_stale"
    by (simp add: v_stale_def)
  from frame_total [OF l, of G_boot] obtain G' v' where
    r: "crt_2ntsc K_ntsc G_boot v_stale frame_src = Inr (G', v', frame_src)"
    unfolding v by blast
  have "kept_off (written K_ntsc frame_src) (analog v_stale) (analog v')"
    by (rule crt_2ntsc_kept [OF _ r]) (simp add: K_ntsc_fields)
  then have "\<forall>p. 0 \<le> p \<longrightarrow> p \<notin> written K_ntsc frame_src \<longrightarrow>
      analog v' ! nat p = analog v_stale ! nat p"
    by (simp add: kept_off_def)
  from this [rule_format, of 238419] have "analog v' ! 238419 = analog v_stale ! 238419"
    using last_sample_not_written [of frame_src] by simp
  moreover have "analog v_stale ! 238419 = - 100"
    by (simp add: v_stale_def stale_def CRT_INPUT_SIZE_def K_ntsc_fields)
  ultimately show ?thesis
    using r by simp
qed

text \<open>
  C1, amended. A call of \<^verbatim>\<open>crt_2ntsc\<close> that returns assigns the samples of \<open>written K s\<close> and
  no others: every sample outside that set keeps the value it had before the call, and the
  same call on any other initial buffer of the same length returns too, with the same statics
  and settings and the same values on \<open>written K s\<close>, so that no sample of that set retains a
  value from before the call.
\<close>

theorem crt_2ntsc_assigns_written:
  assumes "0 \<le> CRT_HRES K" and "crt_2ntsc K G v s = Inr (G', v', s')"
    and "length bn = length (analog v)"
  shows "kept_off (written K s) (analog v) (analog v') \<and>
         (\<exists>v2. crt_2ntsc K G (v\<lparr>analog := bn\<rparr>) s = Inr (G', v2, s') \<and>
            agree_on (written K s) (analog v') (analog v2))"
proof
  show "kept_off (written K s) (analog v) (analog v')"
    by (rule crt_2ntsc_kept [OF assms(1,2)])
  from crt_2ntsc_agree [OF assms(1,3), of s G] assms(2)
  obtain r where "crt_2ntsc K G (v\<lparr>analog := bn\<rparr>) s = Inr r" and "G' = fst r" and "s' = snd (snd r)"
    and "agree_on (written K s) (analog v') (analog (fst (snd r)))"
    by (cases "crt_2ntsc K G (v\<lparr>analog := bn\<rparr>) s") auto
  then show "\<exists>v2. crt_2ntsc K G (v\<lparr>analog := bn\<rparr>) s = Inr (G', v2, s') \<and>
      agree_on (written K s) (analog v') (analog v2)"
    by (cases r) auto
qed

theorem crt_2ntsc_assigns_written_witness:
  "\<exists>G' v' s'. crt_2ntsc K_ntsc G_boot v_stale frame_src = Inr (G', v', s') \<and>
     kept_off (written K_ntsc frame_src) (analog v_stale) (analog v') \<and>
     (\<exists>v2. crt_2ntsc K_ntsc G_boot (v_stale\<lparr>analog := silent K_ntsc\<rparr>) frame_src = Inr (G', v2, s') \<and>
        agree_on (written K_ntsc frame_src) (analog v') (analog v2))"
proof -
  have l: "length (stale K_ntsc) = nat (CRT_INPUT_SIZE K_ntsc)"
    by (simp add: stale_def)
  have v: "v_stale\<lparr>analog := stale K_ntsc\<rparr> = v_stale"
    by (simp add: v_stale_def)
  from frame_total [OF l, of G_boot] obtain G' v' where
    r: "crt_2ntsc K_ntsc G_boot v_stale frame_src = Inr (G', v', frame_src)"
    unfolding v by blast
  have H: "0 \<le> CRT_HRES K_ntsc"
    by (simp add: K_ntsc_fields)
  have b: "length (silent K_ntsc) = length (analog v_stale)"
    by (simp add: silent_def stale_def v_stale_def)
  from crt_2ntsc_assigns_written [OF H r b] r show ?thesis
    by blast
qed

end
